theory Spec2Isabelle
  imports Main "HOL-Library.Word"
begin

unbundle bit_operations_syntax

section \<open>The Mk2PVRouter telemetry decoder (mk2pvrouter.cpp, mk2pvrouter.h)\<close>

text \<open>
  Bytes are 8-bit words. A pointer into the frame buffer is the integer offset from the
  address of \<open>buf_\<close>, and memory is a total function from offsets to bytes: offsets
  \<open>0 .. MAX_BUF_SIZE - 1\<close> are the array \<open>buf_\<close>, the other offsets are whatever
  surrounds the array. The destination arrays \<open>tag_\<close> and \<open>val_\<close> are memories of
  their own, indexed from their first byte.
\<close>

type_synonym u8 = "8 word"
type_synonym mem = "int \<Rightarrow> u8"

subsection \<open>Constants\<close>

definition START_FRAME :: u8 where "START_FRAME = 0x2"
definition END_FRAME :: u8 where "END_FRAME = 0x3"
definition LINE_FEED :: u8 where "LINE_FEED = 0xa"
definition CARRIAGE_RETURN :: u8 where "CARRIAGE_RETURN = 0xd"
definition TAB :: u8 where "TAB = 0x9"
definition MAX_ITERATIONS :: int where "MAX_ITERATIONS = 128"

definition MAX_TAG_SIZE :: int where "MAX_TAG_SIZE = 16"
definition MAX_VAL_SIZE :: int where "MAX_VAL_SIZE = 16"
definition MAX_BUF_SIZE :: int where "MAX_BUF_SIZE = 1048"

subsection \<open>The C library functions the code calls\<close>

text \<open>
  \<open>memchr(s, c, n)\<close> reads the bytes at \<open>s, s + 1, ...\<close> in order, stops at the first one
  equal to \<open>c\<close> and returns its address, or returns the null pointer (\<open>None\<close>) once \<open>n\<close>
  bytes have been read without a match.
\<close>

fun memchr :: "mem \<Rightarrow> int \<Rightarrow> u8 \<Rightarrow> nat \<Rightarrow> int option" where
  "memchr m s c 0 = None"
| "memchr m s c (Suc n) = (if m s = c then Some s else memchr m (s + 1) c n)"

text \<open>The number of bytes one call of \<open>memchr\<close> reads: up to and including the match.\<close>

definition memchr_examined :: "mem \<Rightarrow> int \<Rightarrow> u8 \<Rightarrow> nat \<Rightarrow> nat" where
  "memchr_examined m s c n =
     (case memchr m s c n of None \<Rightarrow> n | Some p \<Rightarrow> nat (p - s) + 1)"

text \<open>
  A pointer difference passed where a \<open>size_t\<close> is expected: the targets of the component
  are 32-bit, so a negative difference wraps to a large count.
\<close>

definition size_t_of :: "int \<Rightarrow> nat" where
  "size_t_of d = nat (d mod 2 ^ 32)"

fun memset :: "mem \<Rightarrow> int \<Rightarrow> u8 \<Rightarrow> nat \<Rightarrow> mem" where
  "memset dest d v 0 = dest"
| "memset dest d v (Suc n) = memset (dest(d := v)) (d + 1) v n"

text \<open>
  \<open>strncpy(dest, src, n)\<close> copies bytes up to the first NUL of the source and fills what is
  left of the \<open>n\<close> bytes with NUL; it writes exactly \<open>n\<close> bytes and no terminator of its own.
\<close>

fun strncpy :: "mem \<Rightarrow> int \<Rightarrow> mem \<Rightarrow> int \<Rightarrow> nat \<Rightarrow> mem" where
  "strncpy dest d src s 0 = dest"
| "strncpy dest d src s (Suc n) =
     (if src s = 0 then memset dest d 0 (Suc n)
      else strncpy (dest(d := src s)) (d + 1) src (s + 1) n)"

text \<open>
  \<open>std::string(p)\<close> for a \<open>char *\<close>: the bytes before the first NUL. The arrays it is
  applied to hold \<open>cap\<close> bytes.
\<close>

definition std_string :: "mem \<Rightarrow> nat \<Rightarrow> u8 list" where
  "std_string p cap = takeWhile (\<lambda>b. b \<noteq> 0) (map (\<lambda>i. p (int i)) [0..<cap])"

subsection \<open>Field extraction\<close>

text \<open>
  \<open>get_field(dest, buf_start, buf_end, max_len)\<close>, returning the length and the
  destination array as the call leaves it.
\<close>

definition get_field :: "mem \<Rightarrow> mem \<Rightarrow> int \<Rightarrow> int \<Rightarrow> int \<Rightarrow> int \<times> mem" where
  "get_field dest m buf_start buf_end max_len =
     (case memchr m buf_start TAB (size_t_of (buf_end - buf_start)) of
        None \<Rightarrow> (0, dest)
      | Some field_end \<Rightarrow>
          let len = field_end - buf_start in
          if len \<ge> max_len then (len, dest)
          else (len, (strncpy dest 0 m buf_start (nat len))(len := 0)))"

subsection \<open>Checksum\<close>

text \<open>
  \<open>calculate_crc_(grp, grp_len)\<close>. (A name cannot end in an underscore here, so the
  trailing underscore of the source's member names is dropped throughout.) The accumulator
  is a \<open>uint8_t\<close>, so the sum wraps modulo 256, whatever the signedness of \<open>char\<close>.
  The loop adds \<open>grp[i]\<close> for \<open>0 \<le> i < grp_len - checksum_area_end_\<close>.
\<close>

definition calculate_crc :: "int \<Rightarrow> mem \<Rightarrow> int \<Rightarrow> int \<Rightarrow> u8" where
  "calculate_crc checksum_area_end m grp grp_len =
     (let crc_tmp = foldl (\<lambda>crc i. crc + m (grp + int i)) 0
                      [0..<nat (grp_len - checksum_area_end)]
      in (crc_tmp AND 0x3F) + 0x20)"

text \<open>
  \<open>check_crc_(grp, grp_end)\<close>. The comparison promotes both bytes to \<open>int\<close>; the
  calculated value lies in \<open>0x20 .. 0x5F\<close>, so with a signed or an unsigned \<open>char\<close>
  the two are equal exactly when the bytes are. The address the transmitted checksum is
  read from is \<open>grp + grp_len - 1\<close>.
\<close>

definition crc_raw_addr :: "int \<Rightarrow> int \<Rightarrow> int" where
  "crc_raw_addr grp grp_end = (let grp_len = grp_end - grp in grp + (grp_len - 1))"

definition check_crc :: "int \<Rightarrow> mem \<Rightarrow> int \<Rightarrow> int \<Rightarrow> bool" where
  "check_crc checksum_area_end m grp grp_end =
     (let grp_len = grp_end - grp;
          raw_crc = m (crc_raw_addr grp grp_end);
          calculated_crc = calculate_crc checksum_area_end m grp grp_len
      in \<not> (raw_crc \<noteq> calculated_crc))"

subsection \<open>Effects\<close>

text \<open>
  What the component does to the outside is kept as a trace: the diagnostics it logs, the
  calls of \<open>publish_value_\<close> (a measurement handed to the dispatcher) and the calls of a
  listener's \<open>publish_val\<close>. The trace also records the accesses to the frame buffer
  that the safety properties are about: the bytes a line-feed or carriage-return search of
  the group scan read, the span handed to \<open>check_crc_\<close>, and the index of a store into
  \<open>buf_\<close>.
\<close>

datatype diag =
    Crc_mismatch u8 u8
  | No_group_found
  | Invalid_tag
  | Invalid_value "u8 list"
  | Internal_buffer_full

datatype event =
    LogE diag
  | LogW diag
  | Publish_value "u8 list" "u8 list"
  | Publish_val nat "u8 list"
  | Scan_read int nat
  | Crc_check int int
  | Buf_write int

subsection \<open>The router\<close>

datatype State = OFF | ON | START_FRAME_RECEIVED | END_FRAME_RECEIVED

text \<open>
  The members of \<open>Mk2PVRouter\<close>. A listener is known to the router by its \<open>tag\<close>
  only, and is identified by its position in \<open>mk2pvrouter_listeners_\<close>. \<open>rx\<close> is the
  UART receive queue: \<open>available()\<close> is its length and \<open>read()\<close> takes its head.
  \<open>out\<close> is the trace of effects so far.
\<close>

record router =
  baud_rate :: nat
  checksum_area_end :: int
  buf :: mem
  buf_index :: "32 word"
  tag :: mem
  val :: mem
  state :: State
  mk2pvrouter_listeners :: "u8 list list"
  rx :: "u8 list"
  out :: "event list"

text \<open>The constructor and the member initialisers; the three arrays start with any content.\<close>

definition Mk2PVRouter :: "mem \<Rightarrow> mem \<Rightarrow> mem \<Rightarrow> u8 list \<Rightarrow> router" where
  "Mk2PVRouter b t v input =
     \<lparr> baud_rate = 9600, checksum_area_end = 1, buf = b, buf_index = 0, tag = t, val = v,
       state = OFF, mk2pvrouter_listeners = [], rx = input, out = [] \<rparr>"

definition register_mk2pvrouter_listener :: "u8 list \<Rightarrow> router \<Rightarrow> router" where
  "register_mk2pvrouter_listener listener r =
     r\<lparr>mk2pvrouter_listeners := mk2pvrouter_listeners r @ [listener]\<rparr>"

subsection \<open>Dispatch\<close>

text \<open>
  \<open>publish_value_(tag, val)\<close>: the range-for loop over the listeners, from the listener
  at position \<open>i\<close> on.
\<close>

fun publish_value_from :: "nat \<Rightarrow> u8 list \<Rightarrow> u8 list \<Rightarrow> u8 list list \<Rightarrow> event list" where
  "publish_value_from i t v [] = []"
| "publish_value_from i t v (element # rest) =
     (if t \<noteq> element then publish_value_from (i + 1) t v rest
      else Publish_val i v # publish_value_from (i + 1) t v rest)"

definition publish_value :: "u8 list list \<Rightarrow> u8 list \<Rightarrow> u8 list \<Rightarrow> event list" where
  "publish_value listeners t v = publish_value_from 0 t v listeners"

subsection \<open>The frame reader\<close>

text \<open>
  \<open>read_chars_until_(drop, c)\<close>: the while loop from the point where the counter is
  \<open>j\<close>. The counter is a \<open>uint8_t\<close> that never passes 129, so it does not wrap.
\<close>

function read_chars_from :: "nat \<Rightarrow> bool \<Rightarrow> u8 \<Rightarrow> router \<Rightarrow> bool \<times> router" where
  "read_chars_from j drop' c r =
     (case rx r of
        [] \<Rightarrow> (False, r)
      | received # rest \<Rightarrow>
          if \<not> j < 128 then (False, r)
          else
            let r1 = r\<lparr>rx := rest\<rparr> in
            if received = c then (True, r1)
            else if drop' then read_chars_from (j + 1) drop' c r1
            else if uint (buf_index r1) \<ge> MAX_BUF_SIZE - 1
              then (False, r1\<lparr>out := out r1 @ [LogW Internal_buffer_full], state := OFF\<rparr>)
            else read_chars_from (j + 1) drop' c
                   (r1\<lparr>buf := (buf r1)(uint (buf_index r1) := received),
                       buf_index := buf_index r1 + 1,
                       out := out r1 @ [Buf_write (uint (buf_index r1))]\<rparr>))"
  by pat_completeness auto
termination
  by (relation "measure (\<lambda>(j, d, c, r). length (rx r))") auto

declare read_chars_from.simps [simp del]

definition read_chars_until :: "bool \<Rightarrow> u8 \<Rightarrow> router \<Rightarrow> bool \<times> router" where
  "read_chars_until drop' c r = read_chars_from 0 drop' c r"

subsection \<open>The group scan of a completed frame\<close>

text \<open>
  The body of the while loop of \<open>loop()\<close> from the call of \<open>check_crc_\<close> on, for the
  group \<open>[f1, grp_end)\<close> and the current contents of \<open>tag_\<close> and \<open>val_\<close>: the effects,
  the cursor \<open>buf_finger\<close> at the end of the pass (each \<open>continue\<close> leaves it where it is
  at that point), and the two arrays. \<open>check_crc_\<close> logs the mismatch itself, with the
  calculated and the transmitted byte.
\<close>

definition process_group ::
  "int \<Rightarrow> mem \<Rightarrow> u8 list list \<Rightarrow> int \<Rightarrow> int \<Rightarrow> mem \<Rightarrow> mem
     \<Rightarrow> event list \<times> int \<times> mem \<times> mem" where
  "process_group cae m listeners f1 grp_end tg vl =
     (if \<not> check_crc cae m f1 grp_end
      then ([Crc_check f1 grp_end,
             LogE (Crc_mismatch (calculate_crc cae m f1 (grp_end - f1))
                     (m (crc_raw_addr f1 grp_end)))],
            f1, tg, vl)
      else
        case get_field tg m f1 grp_end MAX_TAG_SIZE of (field_len, tg') \<Rightarrow>
        if field_len = 0 \<or> field_len \<ge> MAX_TAG_SIZE
        then ([Crc_check f1 grp_end, LogE Invalid_tag], f1, tg', vl)
        else
          let f2 = f1 + (field_len + 1) in
          case get_field vl m f2 grp_end MAX_VAL_SIZE of (field_len2, vl') \<Rightarrow>
          if field_len2 = 0 \<or> field_len2 \<ge> MAX_VAL_SIZE
          then ([Crc_check f1 grp_end,
                 LogE (Invalid_value (std_string tg' (nat MAX_TAG_SIZE)))],
                f2, tg', vl')
          else
            let f3 = f2 + (field_len2 + 1 + 1 + 1);
                t = std_string tg' (nat MAX_TAG_SIZE);
                v = std_string vl' (nat MAX_VAL_SIZE)
            in ([Crc_check f1 grp_end, Publish_value t v] @ publish_value listeners t v,
                f3, tg', vl'))"

text \<open>
  One evaluation of the while condition followed, when it holds, by one pass through the
  body, from the cursor \<open>buf_finger\<close>. The result is the effects, the cursor for the next
  evaluation of the condition (\<open>None\<close> when the loop is left, by the condition or by
  \<open>break\<close>), and the two arrays. \<open>buf_index_ - 1\<close> is computed on \<open>uint32_t\<close>.
\<close>

definition group_step ::
  "int \<Rightarrow> mem \<Rightarrow> 32 word \<Rightarrow> u8 list list \<Rightarrow> int \<Rightarrow> mem \<Rightarrow> mem
     \<Rightarrow> event list \<times> int option \<times> mem \<times> mem" where
  "group_step cae m n listeners buf_finger tg vl =
     (let lf_read = [Scan_read buf_finger (memchr_examined m buf_finger LINE_FEED (unat (n - 1)))] in
      case memchr m buf_finger LINE_FEED (unat (n - 1)) of
        None \<Rightarrow> (lf_read, None, tg, vl)
      | Some lf \<Rightarrow>
          if \<not> lf < uint n then (lf_read, None, tg, vl)
          else
            let f1 = lf + 1;
                buf_end = uint n;
                cr_read = [Scan_read f1 (memchr_examined m f1 CARRIAGE_RETURN (size_t_of (buf_end - f1)))]
            in
            case memchr m f1 CARRIAGE_RETURN (size_t_of (buf_end - f1)) of
              None \<Rightarrow> (lf_read @ cr_read @ [LogE No_group_found], None, tg, vl)
            | Some grp_end \<Rightarrow>
                (case process_group cae m listeners f1 grp_end tg vl of
                   (evs, buf_finger', tg', vl') \<Rightarrow>
                     (lf_read @ cr_read @ evs, Some buf_finger', tg', vl')))"

text \<open>
  The while loop of \<open>loop()\<close>. Every pass moves the cursor forward and does not start
  at or after the fill length, which is why the loop ends.
\<close>

lemma memchr_ge: "memchr m s c n = Some p \<Longrightarrow> s \<le> p"
proof (induction n arbitrary: s)
  case 0 then show ?case by simp
next
  case (Suc n)
  show ?case
  proof (cases "m s = c")
    case True with Suc.prems show ?thesis by simp
  next
    case False
    with Suc.prems have "memchr m (s + 1) c n = Some p" by simp
    from Suc.IH [OF this] show ?thesis by simp
  qed
qed

lemma memchr_lt: "memchr m s c n = Some p \<Longrightarrow> p < s + int n"
proof (induction n arbitrary: s)
  case 0 then show ?case by simp
next
  case (Suc n)
  show ?case
  proof (cases "m s = c")
    case True with Suc.prems show ?thesis by simp
  next
    case False
    with Suc.prems have "memchr m (s + 1) c n = Some p" by simp
    from Suc.IH [OF this] show ?thesis by simp
  qed
qed

lemma get_field_len_nonneg: "get_field dest m s e mx = (l, d') \<Longrightarrow> 0 \<le> l"
  by (auto simp: get_field_def Let_def split: option.splits if_splits dest: memchr_ge)

lemma process_group_advances:
  "process_group cae m ls f1 ge tg vl = (evs, f', tg', vl') \<Longrightarrow> f1 \<le> f'"
  by (auto simp: process_group_def Let_def split: if_splits prod.splits
        dest!: get_field_len_nonneg)

lemma group_step_advances:
  assumes "group_step cae m n ls f tg vl = (evs, Some f', tg', vl')"
  shows "f < f' \<and> f < uint n"
proof -
  obtain lf where lf: "memchr m f LINE_FEED (unat (n - 1)) = Some lf" and lt: "lf < uint n"
    using assms by (auto simp: group_step_def Let_def split: option.splits if_splits prod.splits)
  have fl: "f \<le> lf" using lf by (rule memchr_ge)
  have "lf + 1 \<le> f'"
    using assms lf lt
    by (auto simp: group_step_def Let_def split: option.splits if_splits prod.splits
          dest: process_group_advances)
  then show ?thesis using fl lt by simp
qed

function group_loop ::
  "int \<Rightarrow> mem \<Rightarrow> 32 word \<Rightarrow> u8 list list \<Rightarrow> int \<Rightarrow> mem \<Rightarrow> mem \<Rightarrow> event list \<times> mem \<times> mem" where
  "group_loop cae m n listeners buf_finger tg vl =
     (case group_step cae m n listeners buf_finger tg vl of
        (evs, None, tg', vl') \<Rightarrow> (evs, tg', vl')
      | (evs, Some buf_finger', tg', vl') \<Rightarrow>
          (case group_loop cae m n listeners buf_finger' tg' vl' of
             (evs', tg'', vl'') \<Rightarrow> (evs @ evs', tg'', vl'')))"
  by pat_completeness auto
termination
  apply (relation "measure (\<lambda>(cae, m, n, ls, f, tg, vl). nat (uint n - f))")
   apply simp
  subgoal for cae m n listeners buf_finger tg vl x1 x2 x1a x2a x2b x1b x2c
    using group_step_advances [of cae m n listeners buf_finger tg vl x1 x2b x1b x2c] by simp
  done

declare group_loop.simps [simp del]

subsection \<open>The state machine\<close>

text \<open>
  \<open>setup()\<close> (the name is reserved here, hence \<open>router_setup\<close>), the periodic trigger
  \<open>update()\<close> and the streaming step \<open>loop()\<close>.
\<close>

definition router_setup :: "router \<Rightarrow> router" where
  "router_setup r = r\<lparr>state := OFF\<rparr>"

definition update :: "router \<Rightarrow> router" where
  "update r = (if state r = OFF then r\<lparr>buf_index := 0, state := ON\<rparr> else r)"

definition loop :: "router \<Rightarrow> router" where
  "loop r =
     (case state r of
        OFF \<Rightarrow> r
      | ON \<Rightarrow>
          (case read_chars_until True START_FRAME r of
             (found, r') \<Rightarrow> if found then r'\<lparr>state := START_FRAME_RECEIVED\<rparr> else r')
      | START_FRAME_RECEIVED \<Rightarrow>
          (case read_chars_until False END_FRAME r of
             (found, r') \<Rightarrow> if found then r'\<lparr>state := END_FRAME_RECEIVED\<rparr> else r')
      | END_FRAME_RECEIVED \<Rightarrow>
          (case group_loop (checksum_area_end r) (buf r) (buf_index r)
                  (mk2pvrouter_listeners r) 0 (tag r) (val r) of
             (evs, tg, vl) \<Rightarrow> r\<lparr>tag := tg, val := vl, out := out r @ evs, state := OFF\<rparr>))"

text \<open>
  The world around the router: bytes arrive at the UART between two calls of \<open>loop()\<close>.
  \<open>run\<close> takes the arrivals in order, each followed by one call of \<open>loop()\<close>.
\<close>

definition feed :: "u8 list \<Rightarrow> router \<Rightarrow> router" where
  "feed bytes r = r\<lparr>rx := rx r @ bytes\<rparr>"


subsection \<open>Test memories\<close>

text \<open>The memory that holds the bytes \<open>xs\<close> from offset 0 on, and NUL elsewhere.\<close>

definition mem_of :: "u8 list \<Rightarrow> mem" where
  "mem_of xs = (\<lambda>i. if 0 \<le> i \<and> i < int (length xs) then xs ! nat i else 0)"

text \<open>
  Two routers for evaluation: one that has just seen the start marker, and one whose buffer
  has room for one more byte.
\<close>

definition R0 :: router where
  "R0 = (Mk2PVRouter (\<lambda>i. 0) (\<lambda>i. 0) (\<lambda>i. 0) [0x41, 0x03, 0x42])\<lparr>state := START_FRAME_RECEIVED\<rparr>"

definition R_full :: router where
  "R_full = (Mk2PVRouter (\<lambda>i. 0) (\<lambda>i. 0) (\<lambda>i. 0) [0x41, 0x42, 0x43])
              \<lparr>state := START_FRAME_RECEIVED, buf_index := 1046\<rparr>"

text \<open>
  Record bodies for evaluation: \<open>A TAB B TAB\<close> with its checksum and with a wrong one, and
  a body whose tag is empty, with its checksum. \<open>R_parse frame\<close> is a router with one
  listener for the tag \<open>A\<close>, about to parse \<open>frame\<close>.
\<close>

definition body_AB :: "u8 list" where "body_AB = [0x41, 0x09, 0x42, 0x09, 0x35]"
definition body_bad :: "u8 list" where "body_bad = [0x41, 0x09, 0x42, 0x09, 0x36]"
definition body_empty_tag :: "u8 list" where "body_empty_tag = [0x09, 0x42, 0x09, 0x34]"

definition R_parse :: "u8 list \<Rightarrow> router" where
  "R_parse frame =
     (register_mk2pvrouter_listener [0x41] (Mk2PVRouter (mem_of frame) (\<lambda>i. 0) (\<lambda>i. 0) []))
       \<lparr>state := END_FRAME_RECEIVED, buf_index := of_nat (length frame)\<rparr>"

section \<open>Properties\<close>

subsection \<open>Test memories evaluate\<close>

lemma mem_of_Cons: "mem_of (x # xs) i = (if i = 0 then x else mem_of xs (i - 1))"
  by (auto simp: mem_of_def nth_Cons' nat_diff_distrib)

lemma mem_of_Nil: "mem_of [] i = 0" by (auto simp: mem_of_def)

subsection \<open>Facts about the library functions\<close>

lemma memchr_hit: "memchr m s c n = Some p \<Longrightarrow> m p = c"
  by (induction n arbitrary: s) (auto split: if_splits)

lemma memchr_None_iff: "memchr m s c n = None \<longleftrightarrow> (\<forall>a. s \<le> a \<and> a < s + int n \<longrightarrow> m a \<noteq> c)"
proof (induction n arbitrary: s)
  case 0 show ?case by auto
next
  case (Suc n)
  have "(\<forall>a. s \<le> a \<and> a < s + int (Suc n) \<longrightarrow> m a \<noteq> c)
        \<longleftrightarrow> m s \<noteq> c \<and> (\<forall>a. s + 1 \<le> a \<and> a < s + 1 + int n \<longrightarrow> m a \<noteq> c)"
    (is "?L \<longleftrightarrow> ?R")
  proof
    assume l: ?L
    then have "m s \<noteq> c" by simp
    moreover have "\<forall>a. s + 1 \<le> a \<and> a < s + 1 + int n \<longrightarrow> m a \<noteq> c" using l by simp
    ultimately show ?R by simp
  next
    assume r: ?R
    show ?L
    proof (intro allI impI)
      fix a assume a: "s \<le> a \<and> a < s + int (Suc n)"
      show "m a \<noteq> c"
      proof (cases "a = s")
        case True with r show ?thesis by simp
      next
        case False
        with a have "s + 1 \<le> a \<and> a < s + 1 + int n" by simp
        with r show ?thesis by blast
      qed
    qed
  qed
  then show ?case using Suc.IH [of "s + 1"] by simp
qed

lemma memchr_first: "memchr m s c n = Some p \<Longrightarrow> s \<le> a \<Longrightarrow> a < p \<Longrightarrow> m a \<noteq> c"
proof (induction n arbitrary: s)
  case 0 then show ?case by simp
next
  case (Suc n)
  show ?case
  proof (cases "m s = c")
    case True with Suc.prems show ?thesis by simp
  next
    case False
    with Suc.prems have r: "memchr m (s + 1) c n = Some p" by simp
    show ?thesis
    proof (cases "a = s")
      case True with False show ?thesis by simp
    next
      case False
      with Suc.prems have "s + 1 \<le> a" by simp
      from Suc.IH [OF r this Suc.prems(3)] show ?thesis .
    qed
  qed
qed

lemma memchr_found:
  assumes "s \<le> p" "p < s + int n" "m p = c" "\<forall>a. s \<le> a \<and> a < p \<longrightarrow> m a \<noteq> c"
  shows "memchr m s c n = Some p"
proof (cases "memchr m s c n")
  case None
  then have "m p \<noteq> c" using assms(1,2) by (simp add: memchr_None_iff)
  with assms(3) show ?thesis by simp
next
  case (Some q)
  have "q = p"
  proof (rule ccontr)
    assume ne: "q \<noteq> p"
    have q: "s \<le> q" "m q = c" using Some memchr_ge memchr_hit by blast+
    show False
    proof (cases "q < p")
      case True with assms(4) q show False by blast
    next
      case False
      with ne have "p < q" by simp
      from memchr_first [OF Some assms(1) this] assms(3) show False by simp
    qed
  qed
  with Some show ?thesis by simp
qed

lemma size_t_of_id: "0 \<le> d \<Longrightarrow> d < 2 ^ 32 \<Longrightarrow> int (size_t_of d) = d"
  by (simp add: size_t_of_def)

lemma memset_apply: "memset dest d v n i = (if d \<le> i \<and> i < d + int n then v else dest i)"
  by (induction n arbitrary: dest d) auto

lemma strncpy_apply:
  "strncpy dest d src s n i =
     (if d \<le> i \<and> i < d + int n
      then (if \<exists>j. 0 \<le> j \<and> j \<le> i - d \<and> src (s + j) = 0 then 0 else src (s + (i - d)))
      else dest i)"
proof (induction n arbitrary: dest d s i)
  case 0 show ?case by auto
next
  case (Suc n)
  show ?case
  proof (cases "src s = 0")
    case True
    have "\<exists>j. 0 \<le> j \<and> j \<le> i - d \<and> src (s + j) = 0" if "d \<le> i"
      using True that by (intro exI [of _ 0]) simp
    then show ?thesis using True by (auto simp: memset_apply)
  next
    case False
    have ex: "(\<exists>j. 0 \<le> j \<and> j \<le> i - d \<and> src (s + j) = 0)
          \<longleftrightarrow> (\<exists>j. 0 \<le> j \<and> j \<le> i - (d + 1) \<and> src (s + 1 + j) = 0)" (is "?A \<longleftrightarrow> ?B")
    proof
      assume ?A
      then obtain j where j: "0 \<le> j" "j \<le> i - d" "src (s + j) = 0" by blast
      with False have "j \<noteq> 0" by auto
      with j have "0 \<le> j - 1 \<and> j - 1 \<le> i - (d + 1) \<and> src (s + 1 + (j - 1)) = 0" by simp
      then show ?B by blast
    next
      assume ?B
      then obtain j where j: "0 \<le> j" "j \<le> i - (d + 1)" "src (s + 1 + j) = 0" by blast
      then have "0 \<le> j + 1 \<and> j + 1 \<le> i - d \<and> src (s + (j + 1)) = 0" by (simp add: ac_simps)
      then show ?A by blast
    qed
    show ?thesis
    proof (cases "i = d")
      case True
      have "\<not> (\<exists>j. 0 \<le> j \<and> j \<le> (0::int) \<and> src (s + j) = 0)"
        using False by (auto simp: order_class.order_eq_iff [symmetric])
      with True False show ?thesis by (simp add: Suc.IH)
    next
      case ne: False
      show ?thesis using False ne by (simp add: Suc.IH ex) (auto simp: algebra_simps)
    qed
  qed
qed

lemma memchr_numeral:
  "memchr m s c (numeral k) = (if m s = c then Some s else memchr m (s + 1) c (pred_numeral k))"
  by (simp add: numeral_eq_Suc)

lemma memset_numeral:
  "memset dest d v (numeral k) = memset (dest(d := v)) (d + 1) v (pred_numeral k)"
  by (simp add: numeral_eq_Suc)

lemma strncpy_numeral:
  "strncpy dest d src s (numeral k) =
     (if src s = 0 then memset dest d 0 (numeral k)
      else strncpy (dest(d := src s)) (d + 1) src (s + 1) (pred_numeral k))"
  by (simp add: numeral_eq_Suc)

lemmas eval_simps =
  memchr_numeral memset_numeral strncpy_numeral mem_of_Cons mem_of_Nil size_t_of_def
  START_FRAME_def END_FRAME_def LINE_FEED_def CARRIAGE_RETURN_def TAB_def
  MAX_TAG_SIZE_def MAX_VAL_SIZE_def MAX_BUF_SIZE_def

subsection \<open>Checksum\<close>

lemma foldl_add_word: "foldl (\<lambda>crc i. crc + f i) (a::u8) xs = a + sum_list (map f xs)"
  by (induction xs arbitrary: a) (simp_all add: add.assoc)

lemma mask6: "(0x3F :: u8) = mask 6"
  by (simp add: mask_eq_exp_minus_1)

lemma unat_and_3F: "unat ((w::u8) AND 0x3F) = unat w mod 64"
proof -
  have "unat (w AND mask 6) = unat (take_bit 6 w)"
    by (simp only: take_bit_eq_mask)
  also have "\<dots> = take_bit 6 (unat w)"
    by (rule unsigned_take_bit_eq)
  also have "\<dots> = unat w mod 64"
    by (simp add: take_bit_eq_mod)
  finally show ?thesis
    by (simp only: mask6)
qed

lemma unat_sum_list: "unat (sum_list (map f xs) :: u8) = (sum_list (map (\<lambda>x. unat (f x)) xs)) mod 256"
proof (induction xs)
  case Nil show ?case by simp
next
  case (Cons x xs)
  have "unat (f x + sum_list (map f xs)) = (unat (f x) + unat (sum_list (map f xs))) mod 256"
    by (simp add: unat_word_ariths)
  also have "\<dots> = (unat (f x) + sum_list (map (\<lambda>x. unat (f x)) xs) mod 256) mod 256"
    by (simp add: Cons.IH)
  also have "\<dots> = (unat (f x) + sum_list (map (\<lambda>x. unat (f x)) xs)) mod 256"
    by (simp add: mod_add_right_eq)
  finally show ?case by simp
qed

lemma unat_calculate_crc:
  "unat (calculate_crc k m g n) =
     (\<Sum>i\<leftarrow>[0..<nat (n - k)]. unat (m (g + int i))) mod 64 + 32"
proof -
  let ?w = "sum_list (map (\<lambda>i. m (g + int i)) [0..<nat (n - k)]) :: u8"
  have a: "unat (?w AND 0x3F) = (\<Sum>i\<leftarrow>[0..<nat (n - k)]. unat (m (g + int i))) mod 64"
    unfolding unat_and_3F unat_sum_list by (simp add: mod_mod_cancel)
  have "unat ((?w AND 0x3F) + 0x20) = (unat (?w AND 0x3F) + 32) mod 256"
    by (simp add: unat_word_ariths)
  also have "\<dots> = unat (?w AND 0x3F) + 32"
    unfolding unat_and_3F by (rule mod_less) (simp add: less_le_trans [OF pos_mod_bound])
  finally show ?thesis
    using a by (simp add: calculate_crc_def foldl_add_word)
qed

lemma calculate_crc_upd_outside:
  "g + (n - k) \<le> a \<Longrightarrow> calculate_crc k (m(a := v)) g n = calculate_crc k m g n"
proof -
  assume a: "g + (n - k) \<le> a"
  have "map (\<lambda>i. (m(a := v)) (g + int i)) [0..<nat (n - k)] = map (\<lambda>i. m (g + int i)) [0..<nat (n - k)]"
    using a by (intro map_cong) auto
  then show ?thesis
    unfolding calculate_crc_def foldl_add_word by (simp only:)
qed

text \<open>
  C2. For a span of \<open>n \<ge> 1\<close> bytes at \<open>g\<close> and a checksum-area-end offset \<open>k\<close>, the
  calculated checksum is the sum of the first \<open>n - k\<close> bytes modulo 64, plus 0x20; the
  verifier succeeds exactly when the last byte of the span is that value; and storing the
  calculated checksum as the last byte makes the verifier succeed. The last part needs
  the checksum byte to lie outside the summed area, \<open>k \<ge> 1\<close>; the constructor sets
  \<open>checksum_area_end_\<close> to 1 and nothing changes it.
\<close>

theorem checksum_spec:
  assumes "1 \<le> n"
  shows "unat (calculate_crc k m g n) =
           (\<Sum>i\<leftarrow>[0..<nat (n - k)]. unat (m (g + int i))) mod 64 + 0x20
       \<and> (check_crc k m g (g + n) \<longleftrightarrow>
            unat (m (g + n - 1)) = (\<Sum>i\<leftarrow>[0..<nat (n - k)]. unat (m (g + int i))) mod 64 + 0x20)
       \<and> (1 \<le> k \<longrightarrow> check_crc k (m(g + n - 1 := calculate_crc k m g n)) g (g + n))"
proof (intro conjI impI)
  show f: "unat (calculate_crc k m g n) =
           (\<Sum>i\<leftarrow>[0..<nat (n - k)]. unat (m (g + int i))) mod 64 + 0x20"
    by (simp add: unat_calculate_crc)
  have "check_crc k m g (g + n) \<longleftrightarrow> m (g + n - 1) = calculate_crc k m g n"
    by (simp add: check_crc_def crc_raw_addr_def Let_def algebra_simps)
  also have "\<dots> \<longleftrightarrow> unat (m (g + n - 1)) = unat (calculate_crc k m g n)"
    by (simp add: word_unat_eq_iff)
  finally show "check_crc k m g (g + n) \<longleftrightarrow>
            unat (m (g + n - 1)) = (\<Sum>i\<leftarrow>[0..<nat (n - k)]. unat (m (g + int i))) mod 64 + 0x20"
    by (simp only: f)
  assume "1 \<le> k"
  then have "calculate_crc k (m(g + n - 1 := calculate_crc k m g n)) g n = calculate_crc k m g n"
    by (intro calculate_crc_upd_outside) simp
  then show "check_crc k (m(g + n - 1 := calculate_crc k m g n)) g (g + n)"
    by (simp add: check_crc_def crc_raw_addr_def Let_def algebra_simps)
qed

theorem checksum_spec_witness:
  "(1::int) \<le> 4
   \<and> unat (calculate_crc 1 (mem_of [0x41, 0x09, 0x42, 0x2C]) 0 4) = 0x2C
   \<and> check_crc 1 (mem_of [0x41, 0x09, 0x42, 0x2C]) 0 (0 + 4)
   \<and> check_crc 1 ((mem_of [0x41, 0x09, 0x42, 0x2C])(0 + 4 - 1 := calculate_crc 1 (mem_of [0x41, 0x09, 0x42, 0x2C]) 0 4)) 0 (0 + 4)"
  using checksum_spec [of 4 1 "mem_of [0x41, 0x09, 0x42, 0x2C]" 0]
  by (simp add: mem_of_Cons mem_of_Nil upt_rec)

subsection \<open>Field extraction\<close>

lemma get_field_no_tab:
  assumes "s \<le> e" "e - s < 2 ^ 32" "\<forall>a. s \<le> a \<and> a < e \<longrightarrow> m a \<noteq> TAB"
  shows "get_field dest m s e mx = (0, dest)"
proof -
  have "int (size_t_of (e - s)) = e - s" using assms by (simp add: size_t_of_id)
  then have "memchr m s TAB (size_t_of (e - s)) = None"
    using assms(3) by (simp add: memchr_None_iff)
  then show ?thesis by (simp add: get_field_def)
qed

lemma get_field_tab:
  assumes "s \<le> e" "e - s < 2 ^ 32"
    and "s \<le> p" "p < e" "m p = TAB" "\<forall>a. s \<le> a \<and> a < p \<longrightarrow> m a \<noteq> TAB"
  shows "get_field dest m s e mx =
           (p - s, if mx \<le> p - s then dest else (strncpy dest 0 m s (nat (p - s)))(p - s := 0))"
proof -
  have "int (size_t_of (e - s)) = e - s" using assms by (simp add: size_t_of_id)
  then have "memchr m s TAB (size_t_of (e - s)) = Some p"
    using assms by (intro memchr_found) simp_all
  then show ?thesis by (simp add: get_field_def Let_def)
qed

text \<open>
  C6, as the code has it. For a region \<open>[s, e)\<close> and a maximum length \<open>mx\<close>: without a
  tab byte in the region the extractor returns 0 and leaves the destination as it was; with
  the first tab at distance \<open>len \<ge> mx\<close> it returns \<open>len\<close> and leaves the destination as
  it was; with \<open>len < mx\<close> it returns \<open>len\<close>, writes positions \<open>0 .. len\<close> of the
  destination and no other: position \<open>i < len\<close> receives the field's byte \<open>i\<close> when no NUL
  byte occurs in the field at or before \<open>i\<close>, and NUL otherwise (\<open>strncpy\<close> stops copying
  at a NUL and pads), and position \<open>len\<close> receives the terminator. So a field without a
  NUL byte is copied whole.
\<close>

theorem get_field_spec:
  assumes "s \<le> e" "e - s < 2 ^ 32"
  shows "((\<forall>a. s \<le> a \<and> a < e \<longrightarrow> m a \<noteq> TAB) \<longrightarrow> get_field dest m s e mx = (0, dest))
    \<and> (\<forall>p. s \<le> p \<and> p < e \<and> m p = TAB \<and> (\<forall>a. s \<le> a \<and> a < p \<longrightarrow> m a \<noteq> TAB) \<longrightarrow>
          (mx \<le> p - s \<longrightarrow> get_field dest m s e mx = (p - s, dest)) \<and>
          (p - s < mx \<longrightarrow>
             fst (get_field dest m s e mx) = p - s \<and>
             (\<forall>i. 0 \<le> i \<and> i < p - s \<longrightarrow>
                  snd (get_field dest m s e mx) i =
                    (if \<exists>j. 0 \<le> j \<and> j \<le> i \<and> m (s + j) = 0 then 0 else m (s + i))) \<and>
             ((\<forall>a. s \<le> a \<and> a < p \<longrightarrow> m a \<noteq> 0) \<longrightarrow>
                (\<forall>i. 0 \<le> i \<and> i < p - s \<longrightarrow> snd (get_field dest m s e mx) i = m (s + i))) \<and>
             snd (get_field dest m s e mx) (p - s) = 0 \<and>
             (\<forall>i. i < 0 \<or> p - s < i \<longrightarrow> snd (get_field dest m s e mx) i = dest i)))"
proof (intro conjI allI impI)
  assume "\<forall>a. s \<le> a \<and> a < e \<longrightarrow> m a \<noteq> TAB"
  with assms show "get_field dest m s e mx = (0, dest)" by (rule get_field_no_tab)
next
  fix p
  assume p: "s \<le> p \<and> p < e \<and> m p = TAB \<and> (\<forall>a. s \<le> a \<and> a < p \<longrightarrow> m a \<noteq> TAB)"
  then have g: "get_field dest m s e mx =
           (p - s, if mx \<le> p - s then dest else (strncpy dest 0 m s (nat (p - s)))(p - s := 0))"
    using assms by (intro get_field_tab) simp_all
  { assume "mx \<le> p - s"
    then show "get_field dest m s e mx = (p - s, dest)" by (simp add: g) }
  assume lt: "p - s < mx"
  show "fst (get_field dest m s e mx) = p - s" by (simp add: g)
  show "snd (get_field dest m s e mx) (p - s) = 0" using lt by (simp add: g)
  { fix i assume "i < 0 \<or> p - s < i"
    then show "snd (get_field dest m s e mx) i = dest i"
      using lt p by (auto simp: g strncpy_apply) }
  { fix i assume i: "0 \<le> i \<and> i < p - s"
    then show "snd (get_field dest m s e mx) i =
                    (if \<exists>j. 0 \<le> j \<and> j \<le> i \<and> m (s + j) = 0 then 0 else m (s + i))"
      using lt by (auto simp: g strncpy_apply) }
  note cp = this
  { fix i assume nz: "\<forall>a. s \<le> a \<and> a < p \<longrightarrow> m a \<noteq> 0" and i: "0 \<le> i \<and> i < p - s"
    have "\<not> (\<exists>j. 0 \<le> j \<and> j \<le> i \<and> m (s + j) = 0)"
    proof
      assume "\<exists>j. 0 \<le> j \<and> j \<le> i \<and> m (s + j) = 0"
      then obtain j where j: "0 \<le> j" "j \<le> i" "m (s + j) = 0" by blast
      with i have "s \<le> s + j \<and> s + j < p" by simp
      with nz j(3) show False by blast
    qed
    then show "snd (get_field dest m s e mx) i = m (s + i)"
      using cp [OF i] by auto }
qed

theorem get_field_spec_witness:
  "(0::int) \<le> 4 \<and> (4::int) - 0 < 2 ^ 32
   \<and> get_field (\<lambda>i. 0x55) (mem_of [0x41, 0x42, 0x43, 0x44]) 0 4 2 = (0, \<lambda>i. 0x55)
   \<and> get_field (\<lambda>i. 0x55) (mem_of [0x41, 0x42, 0x09, 0x44]) 0 4 2 = (2, \<lambda>i. 0x55)
   \<and> fst (get_field (\<lambda>i. 0x55) (mem_of [0x41, 0x42, 0x09, 0x44]) 0 4 3) = 2
   \<and> snd (get_field (\<lambda>i. 0x55) (mem_of [0x41, 0x42, 0x09, 0x44]) 0 4 3) 1 = 0x42
   \<and> snd (get_field (\<lambda>i. 0x55) (mem_of [0x41, 0x42, 0x09, 0x44]) 0 4 3) 2 = 0
   \<and> snd (get_field (\<lambda>i. 0x55) (mem_of [0x41, 0x42, 0x09, 0x44]) 0 4 3) 3 = 0x55"
proof -
  let ?A = "mem_of [0x41, 0x42, 0x43, 0x44]" and ?B = "mem_of [0x41, 0x42, 0x09, 0x44]"
  let ?d = "\<lambda>i::int. 0x55::u8"
  have h1: "(0::int) \<le> 4" and h2: "(4::int) - 0 < 2 ^ 32" by simp_all
  have "memchr ?A 0 TAB 4 = None"
    by (simp add: eval_simps)
  then have a: "\<forall>a. 0 \<le> a \<and> a < 4 \<longrightarrow> ?A a \<noteq> TAB"
    by (simp add: memchr_None_iff)
  have mc: "memchr ?B 0 TAB 4 = Some 2"
    by (simp add: eval_simps)
  have b: "(0::int) \<le> 2 \<and> (2::int) < 4 \<and> ?B 2 = TAB \<and> (\<forall>a. 0 \<le> a \<and> a < 2 \<longrightarrow> ?B a \<noteq> TAB)"
    using memchr_first [OF mc] memchr_hit [OF mc] by simp
  have nz: "\<forall>a. 0 \<le> a \<and> a < 2 \<longrightarrow> ?B a \<noteq> 0"
  proof (intro allI impI)
    fix a :: int assume "0 \<le> a \<and> a < 2"
    then have "a = 0 \<or> a = 1" by arith
    then show "?B a \<noteq> 0" by (auto simp: mem_of_Cons)
  qed
  note ta = get_field_spec [OF h1 h2, of ?A ?d 2, THEN conjunct1, THEN mp, OF a]
  note tb = get_field_spec [OF h1 h2, of ?B ?d 2, THEN conjunct2, THEN spec, THEN mp, OF b]
  note tc = get_field_spec [OF h1 h2, of ?B ?d 3, THEN conjunct2, THEN spec, THEN mp, OF b]
  have c1: "get_field ?d ?B 0 4 2 = (2, ?d)" using tb by simp
  have c2: "fst (get_field ?d ?B 0 4 3) = 2" using tc by simp
  have c3: "snd (get_field ?d ?B 0 4 3) 1 = ?B (0 + 1)"
    using tc nz by simp
  have c4: "snd (get_field ?d ?B 0 4 3) 2 = 0" using tc by simp
  have c5: "snd (get_field ?d ?B 0 4 3) 3 = ?d 3" using tc by simp
  show ?thesis
    using h1 h2 ta c1 c2 c3 c4 c5 by (simp add: mem_of_Cons)
qed

text \<open>
  C6 as stated fails for a field with a NUL byte: the region \<open>A NUL B TAB\<close> has its tab at
  distance 3, below the maximum 16, and byte 2 of the field is \<open>B\<close>, but the destination
  holds NUL at position 2.
\<close>

theorem get_field_nul_counterexample:
  "fst (get_field (\<lambda>i. 0x55) (mem_of [0x41, 0x00, 0x42, 0x09]) 0 4 16) = 3
   \<and> mem_of [0x41, 0x00, 0x42, 0x09] 2 = 0x42
   \<and> snd (get_field (\<lambda>i. 0x55) (mem_of [0x41, 0x00, 0x42, 0x09]) 0 4 16) 2 = 0"
  by (simp add: get_field_def eval_simps)

subsection \<open>The frame reader\<close>

text \<open>
  The bookkeeping of one store into \<open>buf_\<close>, of a run of stores, and of the overflow
  branch. \<open>stored r st rest\<close> is the router \<open>r\<close> after the bytes \<open>st\<close> have been
  appended to the buffer, with \<open>rest\<close> left in the receive queue.
\<close>

definition push :: "u8 \<Rightarrow> router \<Rightarrow> router" where
  "push b r = r\<lparr>buf := (buf r)(uint (buf_index r) := b), buf_index := buf_index r + 1,
               out := out r @ [Buf_write (uint (buf_index r))]\<rparr>"

primrec store :: "u8 list \<Rightarrow> router \<Rightarrow> router" where
  "store [] r = r"
| "store (b # bs) r = store bs (push b r)"

definition overflow :: "router \<Rightarrow> router" where
  "overflow r = r\<lparr>out := out r @ [LogW Internal_buffer_full], state := OFF\<rparr>"

lemma push_sel [simp]:
  "rx (push b r) = rx r" "state (push b r) = state r"
  "buf_index (push b r) = buf_index r + 1"
  "out (push b r) = out r @ [Buf_write (uint (buf_index r))]"
  "buf (push b r) = (buf r)(uint (buf_index r) := b)"
  by (simp_all add: push_def)

lemma push_rx: "push b (r\<lparr>rx := z\<rparr>) = (push b r)\<lparr>rx := z\<rparr>"
  by (simp add: push_def)

lemma store_rx: "store bs (r\<lparr>rx := z\<rparr>) = (store bs r)\<lparr>rx := z\<rparr>"
  by (induction bs arbitrary: r) (simp_all add: push_rx)

lemma store_snoc: "store (bs @ [b]) r = push b (store bs r)"
  by (induction bs arbitrary: r) simp_all

lemma rx_store [simp]: "rx (store bs r) = rx r"
  by (induction bs arbitrary: r) (simp_all add: push_def)

lemma state_store [simp]: "state (store bs r) = state r"
  by (induction bs arbitrary: r) (simp_all add: push_def)

lemma uint_succ_buf_index:
  "uint (w :: 32 word) < 1047 \<Longrightarrow> uint (w + 1) = uint w + 1"
  by (simp add: uint_word_ariths)

text \<open>How one call ends, with \<open>st\<close> the bytes read before the last one.\<close>

definition rd_found :: "nat \<Rightarrow> u8 \<Rightarrow> u8 list \<Rightarrow> u8 list \<Rightarrow> u8 list \<Rightarrow> bool" where
  "rd_found j c inp rest st \<longleftrightarrow> c \<notin> set st \<and> inp = st @ c # rest \<and> length st + j < 128"

definition rd_idle :: "nat \<Rightarrow> u8 \<Rightarrow> u8 list \<Rightarrow> u8 list \<Rightarrow> u8 list \<Rightarrow> bool" where
  "rd_idle j c inp rest st \<longleftrightarrow>
     c \<notin> set st \<and> inp = st @ rest \<and> length st + j \<le> max j 128 \<and>
     (rest = [] \<or> 128 \<le> length st + j)"

definition rd_full :: "nat \<Rightarrow> u8 \<Rightarrow> u8 list \<Rightarrow> u8 list \<Rightarrow> u8 list \<Rightarrow> bool" where
  "rd_full j c inp rest st \<longleftrightarrow>
     c \<notin> set st \<and> (\<exists>x. x \<noteq> c \<and> inp = st @ x # rest) \<and> length st + j < 128"

lemma rd_found_Cons:
  "x \<noteq> c \<Longrightarrow> j < 128 \<Longrightarrow> rd_found (j + 1) c inp rest st \<Longrightarrow> rd_found j c (x # inp) rest (x # st)"
  by (simp add: rd_found_def)

lemma rd_idle_Cons:
  "x \<noteq> c \<Longrightarrow> j < 128 \<Longrightarrow> rd_idle (j + 1) c inp rest st \<Longrightarrow> rd_idle j c (x # inp) rest (x # st)"
  by (auto simp: rd_idle_def)

lemma rd_full_Cons:
  "x \<noteq> c \<Longrightarrow> j < 128 \<Longrightarrow> rd_full (j + 1) c inp rest st \<Longrightarrow> rd_full j c (x # inp) rest (x # st)"
  by (auto simp: rd_full_def)

definition fits :: "router \<Rightarrow> u8 list \<Rightarrow> bool" where
  "fits r st \<longleftrightarrow> int (length st) \<le> max 0 (MAX_BUF_SIZE - 1 - uint (buf_index r))"

lemma fits_Nil [simp]: "fits r []"
  by (simp add: fits_def)

lemma fits_Cons:
  "\<not> MAX_BUF_SIZE - 1 \<le> uint (buf_index r) \<Longrightarrow> fits (push x r) st \<Longrightarrow> fits r (x # st)"
  by (auto simp: fits_def MAX_BUF_SIZE_def uint_succ_buf_index max_def split: if_splits)

definition stored :: "router \<Rightarrow> u8 list \<Rightarrow> u8 list \<Rightarrow> router" where
  "stored r st rest = (store st r)\<lparr>rx := rest\<rparr>"

lemma stored_Cons: "stored (push x (r\<lparr>rx := z\<rparr>)) st rest = stored r (x # st) rest"
  by (simp add: stored_def push_rx store_rx)

lemma read_chars_from_drop:
  assumes "read_chars_from j True c r = (found, r')"
  shows "r' = r\<lparr>rx := rx r'\<rparr> \<and>
         (\<exists>st. (found \<longrightarrow> rd_found j c (rx r) (rx r') st) \<and>
               (\<not> found \<longrightarrow> rd_idle j c (rx r) (rx r') st))"
  using assms
proof (induction j True c r arbitrary: found r' rule: read_chars_from.induct)
  case (1 j c r)
  show ?case
  proof (cases "rx r")
    case Nil
    with "1.prems" have "found = False" "r' = r"
      by (simp_all add: read_chars_from.simps [of j True c r])
    moreover have "rd_idle j c [] [] []" by (simp add: rd_idle_def)
    ultimately show ?thesis using Nil by auto
  next
    case (Cons received rest)
    let ?r1 = "r\<lparr>rx := rest\<rparr>"
    have "read_chars_from j True c r =
        (if \<not> j < 128 then (False, r)
         else if received = c then (True, ?r1)
         else read_chars_from (j + 1) True c ?r1)"
      using Cons by (simp add: read_chars_from.simps [of j True c r] Let_def)
    with "1.prems" have unf: "(found, r') =
        (if \<not> j < 128 then (False, r)
         else if received = c then (True, ?r1)
         else read_chars_from (j + 1) True c ?r1)"
      by simp
    show ?thesis
    proof (cases "j < 128")
      case False
      with unf have "found = False" "r' = r" by simp_all
      moreover have "rd_idle j c (rx r) (rx r) []" using False by (simp add: rd_idle_def)
      ultimately show ?thesis by auto
    next
      case j: True
      show ?thesis
      proof (cases "received = c")
        case True
        with unf j have "found = True" "r' = ?r1" by simp_all
        moreover have "rd_found j c (rx r) rest []" using True j Cons by (simp add: rd_found_def)
        ultimately show ?thesis by auto
      next
        case ne: False
        with unf j have rec: "read_chars_from (j + 1) True c ?r1 = (found, r')" by simp
        have ih: "r' = ?r1\<lparr>rx := rx r'\<rparr> \<and>
          (\<exists>st. (found \<longrightarrow> rd_found (j + 1) c rest (rx r') st) \<and>
                (\<not> found \<longrightarrow> rd_idle (j + 1) c rest (rx r') st))"
          using "1.hyps" [of received rest ?r1 found r'] Cons j ne rec by simp
        then obtain st where st: "found \<longrightarrow> rd_found (j + 1) c rest (rx r') st"
                "\<not> found \<longrightarrow> rd_idle (j + 1) c rest (rx r') st" by blast
        have "(found \<longrightarrow> rd_found j c (rx r) (rx r') (received # st)) \<and>
              (\<not> found \<longrightarrow> rd_idle j c (rx r) (rx r') (received # st))"
          using st ne j Cons by (auto intro: rd_found_Cons rd_idle_Cons)
        moreover have "r' = r\<lparr>rx := rx r'\<rparr>" using ih by simp
        ultimately show ?thesis by blast
      qed
    qed
  qed
qed

lemma read_chars_from_keep:
  assumes "read_chars_from j False c r = (found, r')"
  shows "\<exists>st. fits r st \<and>
           (found \<longrightarrow> rd_found j c (rx r) (rx r') st \<and> r' = stored r st (rx r')) \<and>
           (\<not> found \<longrightarrow>
              (rd_idle j c (rx r) (rx r') st \<and> r' = stored r st (rx r'))
               \<or> (rd_full j c (rx r) (rx r') st \<and> r' = overflow (stored r st (rx r')) \<and>
                   MAX_BUF_SIZE - 1 \<le> uint (buf_index r')))"
  using assms
proof (induction j False c r arbitrary: found r' rule: read_chars_from.induct)
  case (1 j c r)
  show ?case
  proof (cases "rx r")
    case Nil
    with "1.prems" have "found = False" "r' = r"
      by (simp_all add: read_chars_from.simps [of j False c r])
    moreover have "rd_idle j c [] [] []" by (simp add: rd_idle_def)
    ultimately show ?thesis using Nil by (intro exI [of _ "[]"]) (simp add: stored_def)
  next
    case (Cons received rest)
    let ?r1 = "r\<lparr>rx := rest\<rparr>"
    have "read_chars_from j False c r =
        (if \<not> j < 128 then (False, r)
         else if received = c then (True, ?r1)
         else if uint (buf_index r) \<ge> MAX_BUF_SIZE - 1 then (False, overflow ?r1)
         else read_chars_from (j + 1) False c (push received ?r1))"
      using Cons by (simp add: read_chars_from.simps [of j False c r] Let_def push_def overflow_def)
    with "1.prems" have unf: "(found, r') =
        (if \<not> j < 128 then (False, r)
         else if received = c then (True, ?r1)
         else if uint (buf_index r) \<ge> MAX_BUF_SIZE - 1 then (False, overflow ?r1)
         else read_chars_from (j + 1) False c (push received ?r1))"
      by simp
    show ?thesis
    proof (cases "j < 128")
      case False
      with unf have "found = False" "r' = r" by simp_all
      moreover have "rd_idle j c (rx r) (rx r) []" using False by (simp add: rd_idle_def)
      ultimately show ?thesis by (intro exI [of _ "[]"]) (simp add: stored_def)
    next
      case j: True
      show ?thesis
      proof (cases "received = c")
        case True
        with unf j have "found = True" "r' = ?r1" by simp_all
        moreover have "rd_found j c (rx r) rest []" using True j Cons by (simp add: rd_found_def)
        ultimately show ?thesis by (intro exI [of _ "[]"]) (simp add: stored_def)
      next
        case ne: False
        show ?thesis
        proof (cases "uint (buf_index r) \<ge> MAX_BUF_SIZE - 1")
          case True
          with unf j ne have "found = False" "r' = overflow ?r1" by simp_all
          moreover have "rd_full j c (rx r) rest []" using ne j Cons by (simp add: rd_full_def)
          moreover have "MAX_BUF_SIZE - 1 \<le> uint (buf_index (overflow ?r1))"
            using True by (simp add: overflow_def)
          ultimately show ?thesis
            by (intro exI [of _ "[]"]) (simp add: stored_def overflow_def)
        next
          case room: False
          let ?r2 = "push received ?r1"
          from unf j ne room
          have rec: "read_chars_from (j + 1) False c ?r2 = (found, r')" by simp
          have "\<exists>st. fits ?r2 st \<and>
           (found \<longrightarrow> rd_found (j + 1) c (rx ?r2) (rx r') st \<and> r' = stored ?r2 st (rx r')) \<and>
           (\<not> found \<longrightarrow>
              (rd_idle (j + 1) c (rx ?r2) (rx r') st \<and> r' = stored ?r2 st (rx r'))
               \<or> (rd_full (j + 1) c (rx ?r2) (rx r') st \<and> r' = overflow (stored ?r2 st (rx r')) \<and>
                   MAX_BUF_SIZE - 1 \<le> uint (buf_index r')))"
            using "1.hyps" [of received rest ?r1 found r'] Cons j ne room rec
            by (simp add: push_def)
          then obtain st where f: "fits ?r2 st" and
            st: "found \<longrightarrow> rd_found (j + 1) c rest (rx r') st \<and> r' = stored r (received # st) (rx r')"
            "\<not> found \<longrightarrow>
              (rd_idle (j + 1) c rest (rx r') st \<and> r' = stored r (received # st) (rx r'))
               \<or> (rd_full (j + 1) c rest (rx r') st \<and> r' = overflow (stored r (received # st) (rx r')) \<and>
                   MAX_BUF_SIZE - 1 \<le> uint (buf_index r'))"
            unfolding stored_Cons by auto
          have "fits (push received r) st" using f by (simp add: fits_def)
          with room have f': "fits r (received # st)" by (rule fits_Cons)
          show ?thesis
            using st f' ne j Cons
            by (intro exI [of _ "received # st"])
               (auto intro: rd_found_Cons rd_idle_Cons rd_full_Cons)
        qed
      qed
    qed
  qed
qed

lemma rd_found_len: "rd_found 0 c inp rest st \<Longrightarrow> length st < 128"
  by (simp add: rd_found_def)

text \<open>
  C8. One call of \<open>read_chars_until_\<close> ends in one of three ways, with \<open>st\<close> the bytes
  read before the last one, none of them the target. Found: the target was read after
  fewer than 128 other bytes, it is gone from the queue and not in the buffer, and the state
  is unchanged. Not found, without overflow: the queue is empty or 128 bytes were read, and
  the state is unchanged. Not found, with overflow (only when bytes are kept): one more
  byte was read and dropped, and the state is OFF. In each case at most 128 bytes were
  consumed, and when bytes are kept exactly \<open>st\<close> was appended to the buffer.
\<close>

theorem read_chars_until_spec:
  assumes "read_chars_until d c r = (found, r')"
  shows "\<exists>st. c \<notin> set st \<and>
    (found \<and> rx r = st @ c # rx r' \<and> length st < 128 \<and> state r' = state r \<and>
       r' = (if d then r\<lparr>rx := rx r'\<rparr> else stored r st (rx r'))
     \<or> \<not> found \<and> rx r = st @ rx r' \<and> length st \<le> 128 \<and> (rx r' = [] \<or> length st = 128) \<and>
       state r' = state r \<and>
       r' = (if d then r\<lparr>rx := rx r'\<rparr> else stored r st (rx r'))
     \<or> \<not> found \<and> \<not> d \<and> (\<exists>x. x \<noteq> c \<and> rx r = st @ x # rx r') \<and> length st < 128 \<and>
       state r' = OFF \<and> MAX_BUF_SIZE - 1 \<le> uint (buf_index r') \<and>
       r' = overflow (stored r st (rx r')))"
proof (cases d)
  case True
  with assms have "read_chars_from 0 True c r = (found, r')"
    by (simp add: read_chars_until_def)
  from read_chars_from_drop [OF this] obtain st where
    r': "r' = r\<lparr>rx := rx r'\<rparr>" and
    f: "found \<longrightarrow> rd_found 0 c (rx r) (rx r') st" and
    n: "\<not> found \<longrightarrow> rd_idle 0 c (rx r) (rx r') st" by blast
  have s: "state r' = state r" by (subst r') simp
  show ?thesis
  proof (cases found)
    case True
    with f s r' \<open>d\<close> show ?thesis
      by (intro exI [of _ st]) (simp add: rd_found_def)
  next
    case False
    with n s r' \<open>d\<close> show ?thesis
      by (intro exI [of _ st]) (auto simp: rd_idle_def)
  qed
next
  case False
  with assms have "read_chars_from 0 False c r = (found, r')"
    by (simp add: read_chars_until_def)
  from read_chars_from_keep [OF this] obtain st where
    f: "found \<longrightarrow> rd_found 0 c (rx r) (rx r') st \<and> r' = stored r st (rx r')" and
    n: "\<not> found \<longrightarrow>
              (rd_idle 0 c (rx r) (rx r') st \<and> r' = stored r st (rx r'))
               \<or> (rd_full 0 c (rx r) (rx r') st \<and> r' = overflow (stored r st (rx r')) \<and>
                   MAX_BUF_SIZE - 1 \<le> uint (buf_index r'))" by blast
  have s: "state (stored r st z) = state r" for z by (simp add: stored_def)
  have o: "state (overflow q) = OFF" for q by (simp add: overflow_def)
  show ?thesis
  proof (cases found)
    case True
    with f have 1: "rd_found 0 c (rx r) (rx r') st" and 2: "r' = stored r st (rx r')" by simp_all
    have "state r' = state r" by (subst 2) (rule s)
    with 1 2 True \<open>\<not> d\<close> show ?thesis
      by (intro exI [of _ st]) (simp add: rd_found_def)
  next
    case nf: False
    with n consider
        (idle) "rd_idle 0 c (rx r) (rx r') st" "r' = stored r st (rx r')"
      | (full) "rd_full 0 c (rx r) (rx r') st" "r' = overflow (stored r st (rx r'))"
               "MAX_BUF_SIZE - 1 \<le> uint (buf_index r')" by blast
    then show ?thesis
    proof cases
      case idle
      have "state r' = state r" by (subst idle(2)) (rule s)
      with idle nf \<open>\<not> d\<close> show ?thesis
        by (intro exI [of _ st]) (auto simp: rd_idle_def)
    next
      case full
      have "state r' = OFF" by (subst full(2)) (rule o)
      with full nf \<open>\<not> d\<close> show ?thesis
        by (intro exI [of _ st]) (auto simp: rd_full_def)
    qed
  qed
qed
theorem read_chars_until_spec_witness:
  "read_chars_until False END_FRAME R0 = (True, stored R0 [0x41] [0x42])
   \<and> (\<exists>st. END_FRAME \<notin> set st \<and> rx R0 = st @ END_FRAME # rx (stored R0 [0x41] [0x42])
          \<and> length st < 128 \<and> state (stored R0 [0x41] [0x42]) = state R0
          \<and> stored R0 [0x41] [0x42] = stored R0 st (rx (stored R0 [0x41] [0x42])))"
proof -
  have h: "read_chars_until False END_FRAME R0 = (True, stored R0 [0x41] [0x42])"
    by (simp add: read_chars_until_def read_chars_from.simps R0_def Mk2PVRouter_def END_FRAME_def
        MAX_BUF_SIZE_def stored_def push_def)
  from read_chars_until_spec [OF h] h show ?thesis by simp
qed


subsection \<open>Fill length and capacity\<close>

lemma store_sel [simp]:
  "baud_rate (store st r) = baud_rate r" "checksum_area_end (store st r) = checksum_area_end r"
  "tag (store st r) = tag r" "val (store st r) = val r"
  "mk2pvrouter_listeners (store st r) = mk2pvrouter_listeners r"
  by (induction st arbitrary: r) (simp_all add: push_def)

lemma store_buf_index:
  "int (length st) \<le> MAX_BUF_SIZE - 1 - uint (buf_index r) \<Longrightarrow>
   uint (buf_index (store st r)) = uint (buf_index r) + int (length st)"
proof (induction st arbitrary: r)
  case Nil show ?case by simp
next
  case (Cons b st)
  then have lt: "uint (buf_index r) < 1047" by (simp add: MAX_BUF_SIZE_def)
  then have s: "uint (buf_index r + 1) = uint (buf_index r) + 1" by (rule uint_succ_buf_index)
  have "uint (buf_index (store st (push b r))) = uint (buf_index (push b r)) + int (length st)"
    using Cons.prems s by (intro Cons.IH) simp
  then show ?case using s by simp
qed

lemma store_out:
  "int (length st) \<le> MAX_BUF_SIZE - 1 - uint (buf_index r) \<Longrightarrow>
   out (store st r) = out r @ map (\<lambda>i. Buf_write (uint (buf_index r) + int i)) [0..<length st]"
proof (induction st arbitrary: r)
  case Nil show ?case by simp
next
  case (Cons b st)
  then have lt: "uint (buf_index r) < 1047" by (simp add: MAX_BUF_SIZE_def)
  then have s: "uint (buf_index r + 1) = uint (buf_index r) + 1" by (rule uint_succ_buf_index)
  have "out (store st (push b r)) = out (push b r) @
          map (\<lambda>i. Buf_write (uint (buf_index (push b r)) + int i)) [0..<length st]"
    using Cons.prems s by (intro Cons.IH) simp
  moreover have "map (\<lambda>i. Buf_write (uint (buf_index r) + int i)) [0..<Suc (length st)]
      = Buf_write (uint (buf_index r)) # map (\<lambda>i. Buf_write (uint (buf_index r) + 1 + int i)) [0..<length st]"
    by (simp add: upt_conv_Cons map_Suc_upt [symmetric] del: upt_Suc)
  ultimately show ?case using s by simp
qed

lemma store_buf:
  "int (length st) \<le> MAX_BUF_SIZE - 1 - uint (buf_index r) \<Longrightarrow>
   buf (store st r) a =
     (if uint (buf_index r) \<le> a \<and> a < uint (buf_index r) + int (length st)
      then st ! nat (a - uint (buf_index r)) else buf r a)"
proof (induction st arbitrary: r)
  case Nil show ?case by auto
next
  case (Cons b st)
  then have lt: "uint (buf_index r) < 1047" by (simp add: MAX_BUF_SIZE_def)
  then have s: "uint (buf_index r + 1) = uint (buf_index r) + 1" by (rule uint_succ_buf_index)
  have ih: "buf (store st (push b r)) a =
     (if uint (buf_index (push b r)) \<le> a \<and> a < uint (buf_index (push b r)) + int (length st)
      then st ! nat (a - uint (buf_index (push b r))) else buf (push b r) a)"
    using Cons.prems s by (intro Cons.IH) simp
  show ?case
  proof (cases "a = uint (buf_index r)")
    case True with ih s show ?thesis by simp
  next
    case ne: False
    show ?thesis
    proof (cases "uint (buf_index r) + 1 \<le> a \<and> a < uint (buf_index r) + 1 + int (length st)")
      case True
      then have "nat (a - uint (buf_index r)) = Suc (nat (a - (uint (buf_index r) + 1)))"
        by arith
      with True ih s show ?thesis by simp
    next
      case False
      with ne ih s show ?thesis by auto
    qed
  qed
qed

lemma fits_cases:
  "fits r st \<Longrightarrow> st = [] \<or> int (length st) \<le> MAX_BUF_SIZE - 1 - uint (buf_index r)"
  by (auto simp: fits_def max_def split: if_splits)

text \<open>
  \<open>within_capacity r r'\<close>: going from \<open>r\<close> to \<open>r'\<close>, the fill length ends within the
  capacity, every store into \<open>buf_\<close> recorded on the way has its index inside the array, and
  memory outside the array is as it was.
\<close>

definition within_capacity :: "router \<Rightarrow> router \<Rightarrow> bool" where
  "within_capacity r r' \<longleftrightarrow>
     uint (buf_index r') \<le> MAX_BUF_SIZE \<and>
     (\<exists>evs. out r' = out r @ evs \<and> (\<forall>i. Buf_write i \<in> set evs \<longrightarrow> 0 \<le> i \<and> i < MAX_BUF_SIZE)) \<and>
     (\<forall>a. a < 0 \<or> MAX_BUF_SIZE \<le> a \<longrightarrow> buf r' a = buf r a)"

lemma within_capacity_refl: "uint (buf_index r) \<le> MAX_BUF_SIZE \<Longrightarrow> within_capacity r r"
  by (simp add: within_capacity_def)

lemma within_capacity_state [simp]:
  "within_capacity r (r'\<lparr>state := s\<rparr>) = within_capacity r r'"
  by (simp add: within_capacity_def)

lemma within_capacity_rx [simp]:
  "within_capacity r (r'\<lparr>rx := z\<rparr>) = within_capacity r r'"
  by (simp add: within_capacity_def)

lemma within_capacity_store:
  assumes "uint (buf_index r) \<le> MAX_BUF_SIZE" "fits r st"
  shows "within_capacity r (store st r)"
proof (cases "st = []")
  case True with assms show ?thesis by (simp add: within_capacity_refl)
next
  case False
  with assms(2) have b: "int (length st) \<le> MAX_BUF_SIZE - 1 - uint (buf_index r)"
    using fits_cases by blast
  have 1: "uint (buf_index (store st r)) \<le> MAX_BUF_SIZE"
    using b by (simp add: store_buf_index)
  have 2: "\<forall>i. Buf_write i \<in> set (map (\<lambda>i. Buf_write (uint (buf_index r) + int i)) [0..<length st])
             \<longrightarrow> 0 \<le> i \<and> i < MAX_BUF_SIZE"
    using b by auto
  have 3: "\<forall>a. a < 0 \<or> MAX_BUF_SIZE \<le> a \<longrightarrow> buf (store st r) a = buf r a"
  proof (intro allI impI)
    fix a assume a: "a < 0 \<or> MAX_BUF_SIZE \<le> a"
    have "0 \<le> uint (buf_index r)" by simp
    with a b have n: "\<not> (uint (buf_index r) \<le> a \<and> a < uint (buf_index r) + int (length st))"
      by linarith
    show "buf (store st r) a = buf r a"
      by (subst store_buf [OF b]) (simp only: n if_False)
  qed
  show ?thesis
    unfolding within_capacity_def using 1 2 3 store_out [OF b] by blast
qed

lemma within_capacity_overflow:
  "within_capacity r r' \<Longrightarrow> within_capacity r (overflow r')"
  by (auto simp: within_capacity_def overflow_def)

lemma reader_within_capacity:
  assumes "uint (buf_index r) \<le> MAX_BUF_SIZE" "read_chars_from j d c r = (found, r')"
  shows "within_capacity r r'"
proof (cases d)
  case True
  with assms(2) have "read_chars_from j True c r = (found, r')" by simp
  from read_chars_from_drop [OF this] have "r' = r\<lparr>rx := rx r'\<rparr>" by blast
  then have "within_capacity r r' = within_capacity r (r\<lparr>rx := rx r'\<rparr>)" by simp
  then show ?thesis using assms(1) by (simp add: within_capacity_refl)
next
  case False
  with assms(2) obtain st where f: "fits r st"
    and r': "r' = stored r st (rx r') \<or> r' = overflow (stored r st (rx r'))"
    using read_chars_from_keep [of j c r found r'] by (cases found) auto
  have "within_capacity r (stored r st (rx r'))"
    using within_capacity_store [OF assms(1) f] by (simp add: stored_def)
  with r' show ?thesis using within_capacity_overflow by metis
qed

lemma publish_value_from_no_write: "Buf_write i \<notin> set (publish_value_from k t v ls)"
  by (induction ls arbitrary: k) auto

lemma process_group_no_write:
  "Buf_write i \<notin> set (fst (process_group cae m ls f1 ge tg vl))"
  by (auto simp: process_group_def Let_def publish_value_def publish_value_from_no_write
        split: prod.splits)

lemma group_step_no_write: "Buf_write i \<notin> set (fst (group_step cae m n ls f tg vl))"
proof -
  have "Buf_write i \<notin> set evs"
    if "process_group cae m ls f1 ge tg vl = (evs, r)" for f1 ge evs r
    using process_group_no_write [of i cae m ls f1 ge tg vl] that by simp
  then show ?thesis
    by (auto simp: group_step_def Let_def split: option.splits prod.splits)
qed

lemma group_loop_no_write: "Buf_write i \<notin> set (fst (group_loop cae m n ls f tg vl))"
proof (induction cae m n ls f tg vl rule: group_loop.induct)
  case (1 cae m n ls f tg vl)
  obtain evs nx tg' vl' where st: "group_step cae m n ls f tg vl = (evs, nx, tg', vl')"
    by (cases "group_step cae m n ls f tg vl") auto
  have e: "Buf_write i \<notin> set evs" using group_step_no_write [of i cae m n ls f tg vl] st by simp
  show ?case
  proof (cases nx)
    case None
    with st e show ?thesis by (simp add: group_loop.simps [of cae m n ls f tg vl])
  next
    case (Some f')
    have "Buf_write i \<notin> set (fst (group_loop cae m n ls f' tg' vl'))"
      using "1.IH" [of evs "(nx, tg', vl')" nx "(tg', vl')" f' tg' vl'] st Some by simp
    with st e Some show ?thesis
      by (auto simp: group_loop.simps [of cae m n ls f tg vl] split: prod.splits)
  qed
qed

text \<open>
  C9. If the fill length is within the capacity before \<open>setup()\<close>, \<open>update()\<close>,
  \<open>loop()\<close> or \<open>read_chars_until_\<close>, it is within the capacity after it, and every store
  into the frame buffer made by the operation is at an index below the capacity.
\<close>

theorem fill_within_capacity:
  assumes "uint (buf_index r) \<le> MAX_BUF_SIZE"
  shows "within_capacity r (router_setup r) \<and> within_capacity r (update r) \<and>
         within_capacity r (loop r) \<and> within_capacity r (snd (read_chars_until d c r))"
proof (intro conjI)
  show "within_capacity r (router_setup r)"
    using assms by (simp add: router_setup_def within_capacity_refl)
  show "within_capacity r (update r)"
    using assms by (simp add: update_def within_capacity_def MAX_BUF_SIZE_def)
  show rd: "within_capacity r (snd (read_chars_until d c r))" for d c
    using reader_within_capacity [OF assms, of 0 d c]
    by (cases "read_chars_from 0 d c r") (simp add: read_chars_until_def)
  show "within_capacity r (loop r)"
  proof (cases "state r")
    case OFF
    with assms show ?thesis by (simp add: loop_def within_capacity_refl)
  next
    case ON
    with rd [of True START_FRAME] show ?thesis
      by (auto simp: loop_def split: prod.splits)
  next
    case START_FRAME_RECEIVED
    with rd [of False END_FRAME] show ?thesis
      by (auto simp: loop_def split: prod.splits)
  next
    case END_FRAME_RECEIVED
    obtain evs tg vl where g: "group_loop (checksum_area_end r) (buf r) (buf_index r)
          (mk2pvrouter_listeners r) 0 (tag r) (val r) = (evs, tg, vl)"
      by (cases "group_loop (checksum_area_end r) (buf r) (buf_index r)
          (mk2pvrouter_listeners r) 0 (tag r) (val r)") auto
    have "Buf_write i \<notin> set evs" for i
      using group_loop_no_write [of i "checksum_area_end r" "buf r" "buf_index r"
          "mk2pvrouter_listeners r" 0 "tag r" "val r"] g by simp
    with assms END_FRAME_RECEIVED g show ?thesis
      by (simp add: loop_def within_capacity_def)
  qed
qed
theorem fill_within_capacity_witness:
  "uint (buf_index R_full) \<le> MAX_BUF_SIZE
   \<and> uint (buf_index (loop R_full)) \<le> MAX_BUF_SIZE
   \<and> uint (buf_index (update R_full)) \<le> MAX_BUF_SIZE
   \<and> uint (buf_index (router_setup R_full)) \<le> MAX_BUF_SIZE
   \<and> uint (buf_index (snd (read_chars_until False END_FRAME R_full))) \<le> MAX_BUF_SIZE"
proof -
  have h: "uint (buf_index R_full) \<le> MAX_BUF_SIZE"
    by (simp add: R_full_def MAX_BUF_SIZE_def)
  from fill_within_capacity [OF h, of False END_FRAME] h show ?thesis
    by (simp add: within_capacity_def)
qed

subsection \<open>Overflow of the frame buffer\<close>




lemma fits_feed [simp]: "fits (feed bs r) st = fits r st"
  by (simp add: fits_def feed_def)






subsection \<open>Reads of the group scan\<close>

lemmas run_simps =
  loop_def update_def Mk2PVRouter_def read_chars_until_def read_chars_from.simps
  group_loop.simps group_step_def process_group_def Let_def memchr_examined_def check_crc_def calculate_crc_def
  crc_raw_addr_def get_field_def publish_value_def std_string_def eval_simps

text \<open>
  C3 does not hold of the code. A freshly constructed router, with any memory contents,
  receives the frame \<open>x LF A CR y\<close> between the start and the end marker. The fill length
  is 5. The record \<open>A\<close> fails its checksum, the scan goes on from offset 2, and the next
  line-feed search, whose length is \<open>buf_index_ - 1 = 4\<close> whatever the cursor, reads the
  offsets 2 to 5: offset 5 is at the fill length. (The carriage-return search is given the
  remaining length.)
\<close>

theorem scan_reads_past_fill:
  "state (loop (loop (update (Mk2PVRouter b t v [0x02, 0x78, 0x0a, 0x41, 0x0d, 0x79, 0x03]))))
     = END_FRAME_RECEIVED
   \<and> buf_index (loop (loop (update (Mk2PVRouter b t v [0x02, 0x78, 0x0a, 0x41, 0x0d, 0x79, 0x03]))))
     = 5
   \<and> out (loop (loop (loop (update (Mk2PVRouter b t v [0x02, 0x78, 0x0a, 0x41, 0x0d, 0x79, 0x03])))))
     = [Buf_write 0, Buf_write 1, Buf_write 2, Buf_write 3, Buf_write 4,
        Scan_read 0 2, Scan_read 2 2, Crc_check 2 3, LogE (Crc_mismatch 32 65), Scan_read 2 4]"
  by (simp add: run_simps)

text \<open>
  C4 does not hold of the code. The frame \<open>LF CR\<close> holds an empty record: \<open>check_crc_\<close> is
  called with \<open>grp = grp_end = 1\<close>, so \<open>grp_len\<close> is 0 and the transmitted checksum is read
  at \<open>grp[-1]\<close>, offset 0, before the record. The byte there is the line feed, 10, which
  the mismatch diagnostic reports.
\<close>

theorem empty_record_crc_read:
  "state (loop (loop (update (Mk2PVRouter b t v [0x02, 0x0a, 0x0d, 0x03])))) = END_FRAME_RECEIVED
   \<and> buf_index (loop (loop (update (Mk2PVRouter b t v [0x02, 0x0a, 0x0d, 0x03])))) = 2
   \<and> out (loop (loop (loop (update (Mk2PVRouter b t v [0x02, 0x0a, 0x0d, 0x03])))))
     = [Buf_write 0, Buf_write 1,
        Scan_read 0 1, Scan_read 1 1, Crc_check 1 1, LogE (Crc_mismatch 32 10), Scan_read 1 1]
   \<and> crc_raw_addr 1 1 = 0"
  by (simp add: run_simps)

subsection \<open>Frames as lists of groups\<close>

text \<open>
  The group scan is compared with a description of the frame as the spec words it: a frame
  is a sequence of records, each a line feed, a body and a carriage return, possibly with
  other bytes in between; a body is valid when its last byte is the checksum of the bytes
  before it and it starts with a non-empty tag and a non-empty value, each ended by a tab
  and shorter than the maximum. These definitions are about byte lists and do not come
  from the code.
\<close>

text \<open>\<open>holds m a xs\<close>: the bytes \<open>xs\<close> lie in memory from offset \<open>a\<close> on.\<close>

primrec holds :: "mem \<Rightarrow> int \<Rightarrow> u8 list \<Rightarrow> bool" where
  "holds m a [] \<longleftrightarrow> True"
| "holds m a (x # xs) \<longleftrightarrow> m a = x \<and> holds m (a + 1) xs"

lemma holds_append: "holds m a (xs @ ys) \<longleftrightarrow> holds m a xs \<and> holds m (a + int (length xs)) ys"
  by (induction xs arbitrary: a) (simp_all add: ac_simps)

lemma holds_nth: "holds m a xs \<Longrightarrow> i < length xs \<Longrightarrow> m (a + int i) = xs ! i"
proof (induction xs arbitrary: a i)
  case Nil then show ?case by simp
next
  case (Cons x xs)
  show ?case
  proof (cases i)
    case 0 with Cons.prems show ?thesis by simp
  next
    case (Suc k)
    with Cons.prems have "m (a + 1 + int k) = xs ! k" by (intro Cons.IH) simp_all
    with Suc show ?thesis by (simp add: ac_simps)
  qed
qed

lemma holds_in_set:
  assumes "holds m a xs" "a \<le> p" "p < a + int (length xs)"
  shows "m p \<in> set xs"
proof -
  have "nat (p - a) < length xs" using assms(2,3) by simp
  moreover from holds_nth [OF assms(1) this] have "m p = xs ! nat (p - a)"
    using assms(2) by simp
  ultimately show ?thesis by simp
qed

lemma holds_drop: "holds m a xs \<Longrightarrow> holds m (a + int d) (drop d xs)"
proof (induction xs arbitrary: a d)
  case Nil then show ?case by simp
next
  case (Cons x xs)
  show ?case
  proof (cases d)
    case 0 with Cons.prems show ?thesis by simp
  next
    case (Suc k)
    from Cons.prems have "holds m (a + 1 + int k) (drop k xs)" by (intro Cons.IH) simp
    with Suc show ?thesis by (simp add: ac_simps)
  qed
qed

lemma holds_take: "holds m a xs \<Longrightarrow> holds m a (take d xs)"
  by (induction xs arbitrary: a d) (auto simp: take_Cons')

text \<open>Searching a region whose contents are known.\<close>

lemma memchr_holds_absent:
  "holds m s xs \<Longrightarrow> c \<notin> set xs \<Longrightarrow> n \<le> length xs \<Longrightarrow> memchr m s c n = None"
proof (induction xs arbitrary: s n)
  case Nil then show ?case by simp
next
  case (Cons x xs)
  then show ?case by (cases n) auto
qed

lemma memchr_holds_present:
  "holds m s (xs @ c # ys) \<Longrightarrow> c \<notin> set xs \<Longrightarrow> length xs < n \<Longrightarrow>
   memchr m s c n = Some (s + int (length xs))"
proof (induction xs arbitrary: s n)
  case Nil then show ?case by (cases n) auto
next
  case (Cons x xs)
  then obtain k where n: "n = Suc k" by (cases n) auto
  with Cons.prems have "memchr m (s + 1) c k = Some (s + 1 + int (length xs))"
    by (intro Cons.IH) auto
  with Cons.prems n show ?case by (auto simp: ac_simps)
qed

lemma memchr_holds_beyond:
  assumes "holds m s xs" "c \<notin> set xs"
  shows "memchr m s c n = None \<or> (\<exists>p. memchr m s c n = Some p \<and> s + int (length xs) \<le> p)"
proof (cases "memchr m s c n")
  case None then show ?thesis by simp
next
  case (Some p)
  have "s + int (length xs) \<le> p"
  proof (rule ccontr)
    assume "\<not> s + int (length xs) \<le> p"
    then have "p < s + int (length xs)" by simp
    moreover have "s \<le> p" using Some by (rule memchr_ge)
    ultimately have "m p \<in> set xs" using assms(1) holds_in_set by blast
    moreover have "m p = c" using Some by (rule memchr_hit)
    ultimately show False using assms(2) by simp
  qed
  with Some show ?thesis by simp
qed

text \<open>The checksum of a region whose contents are known.\<close>

definition checksum_of :: "u8 list \<Rightarrow> nat" where
  "checksum_of xs = sum_list (map unat xs) mod 64 + 32"

lemma holds_map: "holds m a xs \<Longrightarrow> map (\<lambda>i. m (a + int i)) [0..<length xs] = xs"
  by (rule nth_equalityI) (simp_all add: holds_nth)

lemma calculate_crc_holds:
  assumes "holds m g xs" "0 \<le> k"
  shows "unat (calculate_crc k m g (int (length xs))) =
           checksum_of (take (nat (int (length xs) - k)) xs)"
proof -
  let ?n = "nat (int (length xs) - k)"
  have le: "?n \<le> length xs" using assms(2) by simp
  have "holds m g (take ?n xs)" using assms(1) by (rule holds_take)
  then have "map (\<lambda>i. m (g + int i)) [0..<length (take ?n xs)] = take ?n xs" by (rule holds_map)
  moreover have "length (take ?n xs) = ?n" using le by simp
  ultimately have "map (\<lambda>i. m (g + int i)) [0..<?n] = take ?n xs" by simp
  then have "map (\<lambda>i. unat (m (g + int i))) [0..<?n] = map unat (take ?n xs)"
    by (metis (no_types, lifting) map_map comp_def map_eq_conv)
  then show ?thesis by (simp add: unat_calculate_crc checksum_of_def)
qed

definition crc_ok :: "int \<Rightarrow> u8 list \<Rightarrow> bool" where
  "crc_ok k body \<longleftrightarrow>
     body \<noteq> [] \<and> unat (last body) = checksum_of (take (nat (int (length body) - k)) body)"

lemma check_crc_holds:
  assumes "m (g - 1) = LINE_FEED" "holds m g body" "0 \<le> k"
  shows "check_crc k m g (g + int (length body)) \<longleftrightarrow> crc_ok k body"
proof -
  have c: "unat (calculate_crc k m g (int (length body))) =
           checksum_of (take (nat (int (length body) - k)) body)"
    using assms(2,3) by (rule calculate_crc_holds)
  have eq: "check_crc k m g (g + int (length body)) \<longleftrightarrow>
        unat (m (g + int (length body) - 1)) = unat (calculate_crc k m g (int (length body)))"
    by (simp add: check_crc_def crc_raw_addr_def Let_def word_unat_eq_iff algebra_simps)
  show ?thesis
  proof (cases "body = []")
    case True
    have "32 \<le> checksum_of []" by (simp add: checksum_of_def)
    with True assms(1) c eq show ?thesis
      by (simp add: crc_ok_def LINE_FEED_def checksum_of_def)
  next
    case False
    then have l: "length body - 1 < length body" by simp
    have i: "int (length body - 1) = int (length body) - 1"
      using False by (cases body) simp_all
    from holds_nth [OF assms(2) l] False
    have "m (g + int (length body) - 1) = last body"
      unfolding i by (simp add: last_conv_nth algebra_simps)
    with False c eq show ?thesis by (simp add: crc_ok_def)
  qed
qed

definition field :: "u8 list \<Rightarrow> u8 list" where
  "field xs = takeWhile (\<lambda>b. b \<noteq> TAB) xs"

lemma field_split: "TAB \<in> set xs \<Longrightarrow> xs = field xs @ TAB # drop (length (field xs) + 1) xs"
proof -
  assume t: "TAB \<in> set xs"
  have x: "xs = field xs @ dropWhile (\<lambda>b. b \<noteq> TAB) xs" by (simp add: field_def)
  from t have "dropWhile (\<lambda>b. b \<noteq> TAB) xs \<noteq> []" by simp
  then obtain y ys where d: "dropWhile (\<lambda>b. b \<noteq> TAB) xs = y # ys"
    by (cases "dropWhile (\<lambda>b. b \<noteq> TAB) xs") auto
  then have "y = TAB" using hd_dropWhile [of "\<lambda>b. b \<noteq> TAB" xs] by auto
  with d x have xs: "xs = field xs @ TAB # ys" by simp
  then have "drop (length (field xs) + 1) xs = ys"
    by (metis append.assoc append_Cons append_Nil append_eq_conv_conj length_append_singleton Suc_eq_plus1)
  with xs show ?thesis by simp
qed

lemma field_no_tab: "TAB \<notin> set (field xs)"
  by (auto simp: field_def dest: set_takeWhileD)

lemma get_field_holds:
  assumes "holds m s xs" "int (length xs) < 2 ^ 32"
  shows "get_field dest m s (s + int (length xs)) mx =
     (if TAB \<in> set xs
      then (int (length (field xs)),
            if mx \<le> int (length (field xs)) then dest
            else (strncpy dest 0 m s (length (field xs)))(int (length (field xs)) := 0))
      else (0, dest))"
proof -
  have sz: "size_t_of (s + int (length xs) - s) = length xs"
    using assms(2) by (simp add: size_t_of_def)
  show ?thesis
  proof (cases "TAB \<in> set xs")
    case False
    have "memchr m s TAB (length xs) = None"
      using memchr_holds_absent [OF assms(1) False order_refl] .
    with False sz show ?thesis by (simp add: get_field_def)
  next
    case True
    let ?f = "field xs"
    from field_split [OF True] have xs: "xs = ?f @ TAB # drop (length ?f + 1) xs" .
    then have "length ?f < length xs"
      by (metis add_diff_cancel_left' length_append length_drop length_greater_0_conv
          list.simps(3) zero_less_diff append_eq_conv_conj)
    moreover have "holds m s (?f @ TAB # drop (length ?f + 1) xs)" using assms(1) xs by simp
    ultimately have "memchr m s TAB (length xs) = Some (s + int (length ?f))"
      using field_no_tab by (intro memchr_holds_present) simp_all
    with True sz show ?thesis by (simp add: get_field_def Let_def)
  qed
qed

definition c_str :: "u8 list \<Rightarrow> u8 list" where
  "c_str xs = takeWhile (\<lambda>b. b \<noteq> 0) xs"

definition c_pad :: "u8 list \<Rightarrow> u8 list" where
  "c_pad xs = c_str xs @ replicate (length xs - length (c_str xs)) 0"

lemma length_c_pad [simp]: "length (c_pad xs) = length xs"
  by (simp add: c_pad_def c_str_def length_takeWhile_le)

lemma c_pad_Cons: "c_pad (x # xs) = (if x = 0 then replicate (Suc (length xs)) 0 else x # c_pad xs)"
  by (simp add: c_pad_def c_str_def Suc_diff_le length_takeWhile_le)

lemma holds_iff: "holds m a xs \<longleftrightarrow> (\<forall>i<length xs. m (a + int i) = xs ! i)"
proof
  assume "holds m a xs" then show "\<forall>i<length xs. m (a + int i) = xs ! i"
    by (simp add: holds_nth)
next
  show "\<forall>i<length xs. m (a + int i) = xs ! i \<Longrightarrow> holds m a xs"
  proof (induction xs arbitrary: a)
    case Nil show ?case by simp
  next
    case (Cons x xs)
    from Cons.prems have "m (a + int 0) = (x # xs) ! 0" by blast
    then have 1: "m a = x" by simp
    have "\<forall>i<length xs. m (a + 1 + int i) = xs ! i"
    proof (intro allI impI)
      fix i assume "i < length xs"
      then have "Suc i < length (x # xs)" by simp
      with Cons.prems have "m (a + int (Suc i)) = (x # xs) ! Suc i" by blast
      then show "m (a + 1 + int i) = xs ! i" by (simp add: ac_simps)
    qed
    then have "holds m (a + 1) xs" by (rule Cons.IH)
    with 1 show ?case by simp
  qed
qed

lemma holds_memset: "holds (memset dest d v n) d (replicate n v)"
  by (simp add: holds_iff memset_apply)

lemma strncpy_below: "i < d \<Longrightarrow> strncpy dest d src s n i = dest i"
  by (simp add: strncpy_apply)

lemma strncpy_holds:
  "holds m s fld \<Longrightarrow> holds (strncpy dest d m s (length fld)) d (c_pad fld)"
proof (induction fld arbitrary: dest d s)
  case Nil show ?case by (simp add: c_pad_def c_str_def)
next
  case (Cons x xs)
  from Cons.prems have x: "m s = x" and xs: "holds m (s + 1) xs" by simp_all
  show ?case
  proof (cases "x = 0")
    case True
    with x show ?thesis
      using holds_memset [of dest d 0 "Suc (length xs)"] by (simp add: c_pad_Cons)
  next
    case False
    have "holds (strncpy (dest(d := x)) (d + 1) m (s + 1) (length xs)) (d + 1) (c_pad xs)"
      using xs by (rule Cons.IH)
    moreover have "strncpy (dest(d := x)) (d + 1) m (s + 1) (length xs) d = x"
      by (simp add: strncpy_below)
    ultimately show ?thesis using False x by (simp add: c_pad_Cons)
  qed
qed

lemma c_str_c_pad_tail: "c_str (c_pad xs @ 0 # ys) = c_str xs"
proof -
  have a: "\<forall>b\<in>set (c_str xs). b \<noteq> 0" by (auto simp: c_str_def dest: set_takeWhileD)
  have "c_pad xs @ 0 # ys = c_str xs @ 0 # (tl (replicate (length xs - length (c_str xs)) 0 @ 0 # ys))"
    by (cases "length xs - length (c_str xs)") (simp_all add: c_pad_def)
  then have "c_str (c_pad xs @ 0 # ys) =
      takeWhile (\<lambda>b. b \<noteq> 0) (c_str xs @ 0 # (tl (replicate (length xs - length (c_str xs)) 0 @ 0 # ys)))"
    by (simp only: c_str_def)
  also have "\<dots> = c_str xs" using a by (simp add: takeWhile_tail)
  finally show ?thesis .
qed

lemma std_string_field:
  assumes "holds m s fld" "length fld < cap"
  shows "std_string ((strncpy dest 0 m s (length fld))(int (length fld) := 0)) cap = c_str fld"
proof -
  let ?d = "(strncpy dest 0 m s (length fld))(int (length fld) := 0)"
  have h: "holds ?d 0 (c_pad fld @ [0])"
    using strncpy_holds [OF assms(1), of dest 0]
    by (auto simp: holds_iff nth_append)
  have "[0..<cap] = [0..<Suc (length fld)] @ [Suc (length fld)..<cap]"
    using assms(2) by (metis Suc_leI upt_add_eq_append le_add_diff_inverse zero_le)
  then have "map (\<lambda>i. ?d (int i)) [0..<cap] =
      map (\<lambda>i. ?d (0 + int i)) [0..<length (c_pad fld @ [0])] @
      map (\<lambda>i. ?d (int i)) [Suc (length fld)..<cap]"
    by simp
  also have "\<dots> = (c_pad fld @ [0]) @ map (\<lambda>i. ?d (int i)) [Suc (length fld)..<cap]"
    by (simp only: holds_map [OF h])
  finally have "std_string ?d cap =
     c_str (c_pad fld @ 0 # map (\<lambda>i. ?d (int i)) [Suc (length fld)..<cap])"
    by (simp add: std_string_def c_str_def)
  then show ?thesis by (simp only: c_str_c_pad_tail)
qed

definition tag_of :: "u8 list \<Rightarrow> u8 list" where
  "tag_of body = field body"

definition after_tag :: "u8 list \<Rightarrow> u8 list" where
  "after_tag body = drop (length (field body) + 1) body"

definition val_of :: "u8 list \<Rightarrow> u8 list" where
  "val_of body = field (after_tag body)"

definition valid_group :: "int \<Rightarrow> u8 list \<Rightarrow> bool" where
  "valid_group k body \<longleftrightarrow>
     crc_ok k body \<and>
     TAB \<in> set body \<and> tag_of body \<noteq> [] \<and> int (length (tag_of body)) < MAX_TAG_SIZE \<and>
     TAB \<in> set (after_tag body) \<and> val_of body \<noteq> [] \<and> int (length (val_of body)) < MAX_VAL_SIZE"

definition measurement_of :: "u8 list \<Rightarrow> u8 list \<times> u8 list" where
  "measurement_of body = (c_str (tag_of body), c_str (val_of body))"

fun measurements :: "event list \<Rightarrow> (u8 list \<times> u8 list) list" where
  "measurements [] = []"
| "measurements (Publish_value t v # es) = (t, v) # measurements es"
| "measurements (e # es) = measurements es"

lemma measurements_append [simp]: "measurements (xs @ ys) = measurements xs @ measurements ys"
  by (induction xs rule: measurements.induct) simp_all

lemma measurements_publish_value_from [simp]: "measurements (publish_value_from i t v ls) = []"
  by (induction ls arbitrary: i) auto

lemma crc_ok_last_not_tab: "crc_ok k body \<Longrightarrow> last body \<noteq> TAB"
proof
  assume c: "crc_ok k body" and t: "last body = TAB"
  then have "unat TAB = checksum_of (take (nat (int (length body) - k)) body)"
    by (simp add: crc_ok_def)
  moreover have "32 \<le> checksum_of (take (nat (int (length body) - k)) body)"
    by (simp add: checksum_of_def)
  ultimately show False by (simp add: TAB_def)
qed

lemma process_group_holds:
  assumes h: "holds m f1 body" and lf: "m (f1 - 1) = LINE_FEED"
    and len: "int (length body) < 2 ^ 32" and k: "0 \<le> k"
  shows "\<exists>evs f' tg' vl'.
           process_group k m ls f1 (f1 + int (length body)) tg vl = (evs, f', tg', vl') \<and>
           f1 \<le> f' \<and> f' \<le> f1 + int (length body) + 1 \<and>
           measurements evs = (if valid_group k body then [measurement_of body] else [])"
proof -
  let ?ge = "f1 + int (length body)"
  have crc: "check_crc k m f1 ?ge \<longleftrightarrow> crc_ok k body"
    using lf h k by (rule check_crc_holds)
  have gt: "get_field tg m f1 ?ge MAX_TAG_SIZE =
     (if TAB \<in> set body
      then (int (length (field body)),
            if MAX_TAG_SIZE \<le> int (length (field body)) then tg
            else (strncpy tg 0 m f1 (length (field body)))(int (length (field body)) := 0))
      else (0, tg))"
    using h len by (rule get_field_holds)
  show ?thesis
  proof (cases "crc_ok k body \<and> TAB \<in> set body \<and> tag_of body \<noteq> [] \<and>
                int (length (tag_of body)) < MAX_TAG_SIZE")
    case False
    then have nv: "\<not> valid_group k body" by (auto simp: valid_group_def)
    from False crc gt have "\<exists>evs tg'. process_group k m ls f1 ?ge tg vl = (evs, f1, tg', vl) \<and>
          measurements evs = []"
      by (auto simp: process_group_def tag_of_def)
    with nv show ?thesis by auto
  next
    case True
    let ?t = "field body"
    let ?tg = "(strncpy tg 0 m f1 (length ?t))(int (length ?t) := 0)"
    let ?f2 = "f1 + (int (length ?t) + 1)"
    let ?a = "after_tag body"
    from True have c: "crc_ok k body" and tb: "TAB \<in> set body" and tne: "?t \<noteq> []"
      and tl: "int (length ?t) < MAX_TAG_SIZE" by (simp_all add: tag_of_def)
    from field_split [OF tb] have body: "body = ?t @ TAB # ?a" by (simp add: after_tag_def)
    have la: "int (length body) = int (length ?t) + 1 + int (length ?a)"
      by (subst body) simp
    have ha: "holds m ?f2 ?a"
      using holds_drop [OF h, of "length ?t + 1"] by (simp add: after_tag_def ac_simps)
    have ge: "?ge = ?f2 + int (length ?a)" using la by simp
    have "int (length ?a) < 2 ^ 32" using la len by simp
    with ha have gv: "get_field vl m ?f2 (?f2 + int (length ?a)) MAX_VAL_SIZE =
     (if TAB \<in> set ?a
      then (int (length (field ?a)),
            if MAX_VAL_SIZE \<le> int (length (field ?a)) then vl
            else (strncpy vl 0 m ?f2 (length (field ?a)))(int (length (field ?a)) := 0))
      else (0, vl))"
      by (rule get_field_holds)
    have gt': "get_field tg m f1 ?ge MAX_TAG_SIZE = (int (length ?t), ?tg)"
      using gt tb tl by simp
    have ht: "holds m f1 ?t" using h body by (metis holds_append)
    have st: "std_string ?tg (nat MAX_TAG_SIZE) = c_str ?t"
      using ht tl by (intro std_string_field) (simp_all add: MAX_TAG_SIZE_def)
    show ?thesis
    proof (cases "TAB \<in> set ?a \<and> val_of body \<noteq> [] \<and> int (length (val_of body)) < MAX_VAL_SIZE")
      case False
      then have nv: "\<not> valid_group k body" by (auto simp: valid_group_def)
      have "\<exists>evs vl'. process_group k m ls f1 ?ge tg vl = (evs, ?f2, ?tg, vl') \<and>
          measurements evs = []"
        using False c crc gt' tne tl gv
        by (auto simp: process_group_def Let_def val_of_def ge)
      moreover have "f1 \<le> ?f2" "?f2 \<le> ?ge + 1" using la by simp_all
      ultimately show ?thesis using nv by auto
    next
      case v: True
      let ?v = "field ?a"
      let ?vl = "(strncpy vl 0 m ?f2 (length ?v))(int (length ?v) := 0)"
      let ?f3 = "?f2 + (int (length ?v) + 1 + 1 + 1)"
      from v have va: "TAB \<in> set ?a" and vne: "?v \<noteq> []" and vl: "int (length ?v) < MAX_VAL_SIZE"
        by (simp_all add: val_of_def)
      have valid: "valid_group k body"
        using True v by (simp add: valid_group_def)
      from field_split [OF va] have a: "?a = ?v @ TAB # drop (length ?v + 1) ?a" .
      have hv: "holds m ?f2 ?v" using ha a by (metis holds_append)
      have sv: "std_string ?vl (nat MAX_VAL_SIZE) = c_str ?v"
        using hv vl by (intro std_string_field) (simp_all add: MAX_VAL_SIZE_def)
      have gv': "get_field vl m ?f2 ?ge MAX_VAL_SIZE = (int (length ?v), ?vl)"
        using gv va vl by (simp add: ge)
      have pg: "process_group k m ls f1 ?ge tg vl =
          ([Crc_check f1 ?ge, Publish_value (c_str ?t) (c_str ?v)] @
             publish_value ls (c_str ?t) (c_str ?v), ?f3, ?tg, ?vl)"
        using c crc gt' tne tl gv' vne vl st sv
        by (simp add: process_group_def Let_def)
      have more: "drop (length ?v + 1) ?a \<noteq> []"
      proof
        assume e: "drop (length ?v + 1) ?a = []"
        with a have "?a = ?v @ [TAB]" by simp
        with body have "body = (?t @ TAB # ?v) @ [TAB]" by simp
        then have "last body = TAB" by (metis last_snoc)
        with crc_ok_last_not_tab [OF c] show False by simp
      qed
      have "length ?a = length ?v + 1 + length (drop (length ?v + 1) ?a)"
        by (subst a) simp
      moreover have "0 < length (drop (length ?v + 1) ?a)" using more by simp
      ultimately have "int (length ?v) + 2 \<le> int (length ?a)" by linarith
      then have b: "f1 \<le> ?f3" "?f3 \<le> ?ge + 1" using la by simp_all
      have "measurements ([Crc_check f1 ?ge, Publish_value (c_str ?t) (c_str ?v)] @
             publish_value ls (c_str ?t) (c_str ?v)) = [measurement_of body]"
        by (simp add: publish_value_def measurement_of_def tag_of_def val_of_def)
      with pg b valid show ?thesis by auto
    qed
  qed
qed

definition group_bytes :: "u8 list \<times> u8 list \<Rightarrow> u8 list" where
  "group_bytes g = fst g @ LINE_FEED # snd g @ [CARRIAGE_RETURN]"

definition frame_of :: "(u8 list \<times> u8 list) list \<Rightarrow> u8 list" where
  "frame_of gs = concat (map group_bytes gs)"

definition well_formed_group :: "u8 list \<times> u8 list \<Rightarrow> bool" where
  "well_formed_group g \<longleftrightarrow>
     LINE_FEED \<notin> set (fst g) \<and> LINE_FEED \<notin> set (snd g) \<and> CARRIAGE_RETURN \<notin> set (snd g)"

definition valid_measurements :: "int \<Rightarrow> (u8 list \<times> u8 list) list \<Rightarrow> (u8 list \<times> u8 list) list" where
  "valid_measurements k gs = map measurement_of (filter (valid_group k) (map snd gs))"

lemma uint_pred: "1 \<le> uint (n :: 32 word) \<Longrightarrow> uint (n - 1) = uint n - 1"
  by (simp add: uint_sub_if')

lemma less_unat: "int k < uint (w :: 32 word) \<Longrightarrow> k < unat w"
proof -
  assume "int k < uint w"
  then have "int k < int (unat w)" by (simp only: uint_nat)
  then show ?thesis by (simp only: of_nat_less_iff)
qed

lemma size_t_of_nat: "0 \<le> d \<Longrightarrow> d \<le> uint (n :: 32 word) \<Longrightarrow> size_t_of d = nat d"
proof -
  assume "0 \<le> d" "d \<le> uint n"
  moreover have "uint n < 2 ^ 32" using uint_bounded [of n] by simp
  ultimately show ?thesis by (simp add: size_t_of_def)
qed

lemma group_step_group:
  assumes h: "holds m f (gap @ LINE_FEED # body @ CARRIAGE_RETURN # rest)"
    and g: "LINE_FEED \<notin> set gap" and b: "CARRIAGE_RETURN \<notin> set body"
    and N: "f + int (length gap) + 1 + int (length body) + 1 + int (length rest) = uint n"
    and f: "0 \<le> f" and k: "0 \<le> k"
  shows "\<exists>evs f' tg' vl'. group_step k m n ls f tg vl = (evs, Some f', tg', vl') \<and>
          f + int (length gap) + 1 \<le> f' \<and>
          f' \<le> f + int (length gap) + 1 + int (length body) + 1 \<and>
          measurements evs = (if valid_group k body then [measurement_of body] else [])"
proof -
  let ?lf = "f + int (length gap)"
  let ?f1 = "?lf + 1"
  have "1 \<le> uint n" using N f by linarith
  then have n1: "uint (n - 1) = uint n - 1" by (rule uint_pred)
  have "int (length gap) < uint (n - 1)" using N f n1 by linarith
  then have c1: "length gap < unat (n - 1)" by (rule less_unat)
  have lf: "memchr m f LINE_FEED (unat (n - 1)) = Some ?lf"
    using h g c1 by (rule memchr_holds_present)
  have lt: "?lf < uint n" using N by linarith
  have h1: "holds m ?f1 (body @ CARRIAGE_RETURN # rest)" and mlf: "m ?lf = LINE_FEED"
    using h by (simp_all add: holds_append)
  have "0 \<le> uint n - ?f1" "uint n - ?f1 \<le> uint n" using N f by linarith+
  then have sz: "size_t_of (uint n - ?f1) = nat (uint n - ?f1)"
    by (rule size_t_of_nat)
  have "length body < nat (uint n - ?f1)" using N by linarith
  with h1 b have cr: "memchr m ?f1 CARRIAGE_RETURN (nat (uint n - ?f1)) = Some (?f1 + int (length body))"
    by (intro memchr_holds_present)
  have hb: "holds m ?f1 body" using h1 by (simp add: holds_append)
  have lb: "int (length body) < 2 ^ 32"
  proof -
    have "uint n < 2 ^ 32" using uint_bounded [of n] by simp
    with N f show ?thesis by linarith
  qed
  have "m (?f1 - 1) = LINE_FEED" using mlf by simp
  from process_group_holds [OF hb this lb k, of ls tg vl]
  obtain evs f' tg' vl' where
    pg: "process_group k m ls ?f1 (?f1 + int (length body)) tg vl = (evs, f', tg', vl')" and
    b1: "?f1 \<le> f'" and b2: "f' \<le> ?f1 + int (length body) + 1" and
    ms: "measurements evs = (if valid_group k body then [measurement_of body] else [])"
    by blast
  have "group_step k m n ls f tg vl =
     ([Scan_read f (memchr_examined m f LINE_FEED (unat (n - 1)))] @
      [Scan_read ?f1 (memchr_examined m ?f1 CARRIAGE_RETURN (nat (uint n - ?f1)))] @ evs,
      Some f', tg', vl')"
    using lf lt cr pg sz by (simp add: group_step_def Let_def)
  with b1 b2 ms show ?thesis by simp
qed

lemma group_loop_continue:
  "group_step k m n ls f tg vl = (evs, Some f', tg', vl') \<Longrightarrow>
   fst (group_loop k m n ls f tg vl) = evs @ fst (group_loop k m n ls f' tg' vl')"
  by (simp add: group_loop.simps [of k m n ls f tg vl] split: prod.splits)

lemma group_loop_stop:
  "group_step k m n ls f tg vl = (evs, None, tg', vl') \<Longrightarrow>
   fst (group_loop k m n ls f tg vl) = evs"
  by (simp add: group_loop.simps [of k m n ls f tg vl])

lemma frame_of_Cons: "frame_of (g # gs) = fst g @ LINE_FEED # snd g @ CARRIAGE_RETURN # frame_of gs"
  by (simp add: frame_of_def group_bytes_def)

lemma valid_measurements_Cons:
  "valid_measurements k (g # gs) =
     (if valid_group k (snd g) then [measurement_of (snd g)] else []) @ valid_measurements k gs"
  by (simp add: valid_measurements_def)

lemma drop_append_le: "d \<le> length xs \<Longrightarrow> drop d (xs @ ys) = drop d xs @ ys"
  by simp

lemma scan_groups:
  assumes "\<forall>g\<in>set gs. well_formed_group g" "LINE_FEED \<notin> set gap0" "0 \<le> f" "0 \<le> k"
    and "holds m f (gap0 @ frame_of gs @ rest)"
    and "f + int (length (gap0 @ frame_of gs @ rest)) = uint n"
  shows "\<exists>evs f' tg' vl' gap'.
           fst (group_loop k m n ls f tg vl) = evs @ fst (group_loop k m n ls f' tg' vl') \<and>
           measurements evs = valid_measurements k gs \<and>
           LINE_FEED \<notin> set gap' \<and> holds m f' (gap' @ rest) \<and>
           f' + int (length (gap' @ rest)) = uint n \<and> f \<le> f' \<and> (gs \<noteq> [] \<longrightarrow> 0 < f')"
  using assms
proof (induction gs arbitrary: f tg vl gap0)
  case Nil
  then show ?case
    by (intro exI [of _ "[]"] exI [of _ f] exI [of _ tg] exI [of _ vl] exI [of _ gap0])
       (simp add: frame_of_def valid_measurements_def)
next
  case (Cons g gs)
  let ?gap = "gap0 @ fst g"
  let ?body = "snd g"
  let ?rest = "frame_of gs @ rest"
  let ?f1 = "f + int (length ?gap) + 1"
  from Cons.prems(1) have wf: "LINE_FEED \<notin> set (fst g)" "LINE_FEED \<notin> set ?body"
    "CARRIAGE_RETURN \<notin> set ?body" and wfs: "\<forall>g\<in>set gs. well_formed_group g"
    by (simp_all add: well_formed_group_def)
  have bytes: "gap0 @ frame_of (g # gs) @ rest = ?gap @ LINE_FEED # ?body @ CARRIAGE_RETURN # ?rest"
    by (simp add: frame_of_Cons)
  have h: "holds m f (?gap @ LINE_FEED # ?body @ CARRIAGE_RETURN # ?rest)"
    using Cons.prems(5) by (simp only: bytes)
  have N: "f + int (length ?gap) + 1 + int (length ?body) + 1 + int (length ?rest) = uint n"
    using Cons.prems(6) by (simp only: bytes) simp
  have g0: "LINE_FEED \<notin> set ?gap" using Cons.prems(2) wf(1) by simp
  from group_step_group [OF h g0 wf(3) N Cons.prems(3,4), of ls tg vl]
  obtain evs1 f1' tg1 vl1 where
    st: "group_step k m n ls f tg vl = (evs1, Some f1', tg1, vl1)" and
    lo: "?f1 \<le> f1'" and hi: "f1' \<le> ?f1 + int (length ?body) + 1" and
    ms: "measurements evs1 = (if valid_group k ?body then [measurement_of ?body] else [])"
    by blast
  define d where "d = nat (f1' - ?f1)"
  define gap1 where "gap1 = drop d (?body @ [CARRIAGE_RETURN])"
  have dle: "d \<le> length (?body @ [CARRIAGE_RETURN])" using lo hi by (simp add: d_def)
  have f1d: "f1' = ?f1 + int d" using lo by (simp add: d_def)
  have "holds m (f + int (length ?gap)) (LINE_FEED # ?body @ CARRIAGE_RETURN # ?rest)"
    using h by (simp only: holds_append)
  then have "holds m ?f1 (?body @ CARRIAGE_RETURN # ?rest)"
    by (simp only: holds.simps)
  then have h1: "holds m ?f1 ((?body @ [CARRIAGE_RETURN]) @ ?rest)"
    by simp
  have "holds m (?f1 + int d) (drop d ((?body @ [CARRIAGE_RETURN]) @ ?rest))"
    using h1 by (rule holds_drop)
  moreover have "drop d ((?body @ [CARRIAGE_RETURN]) @ ?rest) = gap1 @ ?rest"
    unfolding gap1_def using dle by (rule drop_append_le)
  ultimately have h': "holds m f1' (gap1 @ frame_of gs @ rest)" using f1d by simp
  have "set gap1 \<subseteq> set (?body @ [CARRIAGE_RETURN])"
    unfolding gap1_def by (rule set_drop_subset)
  then have g1: "LINE_FEED \<notin> set gap1"
    using wf(2) by (auto simp: LINE_FEED_def CARRIAGE_RETURN_def)
  have "length gap1 = length ?body + 1 - d" by (simp add: gap1_def)
  then have N': "f1' + int (length (gap1 @ frame_of gs @ rest)) = uint n"
    using N f1d dle by simp
  have f1pos: "0 \<le> f1'" "0 < f1'" "f \<le> f1'" using lo Cons.prems(3) by simp_all
  from Cons.IH [OF wfs g1 f1pos(1) Cons.prems(4) h' N', of tg1 vl1]
  obtain evs2 f' tg' vl' gap' where
    r: "fst (group_loop k m n ls f1' tg1 vl1) = evs2 @ fst (group_loop k m n ls f' tg' vl')" and
    m2: "measurements evs2 = valid_measurements k gs" and
    e: "LINE_FEED \<notin> set gap'" "holds m f' (gap' @ rest)"
       "f' + int (length (gap' @ rest)) = uint n" "f1' \<le> f'"
    by blast
  have "fst (group_loop k m n ls f tg vl) = (evs1 @ evs2) @ fst (group_loop k m n ls f' tg' vl')"
    using group_loop_continue [OF st] r by simp
  moreover have "measurements (evs1 @ evs2) = valid_measurements k (g # gs)"
    using ms m2 by (simp add: valid_measurements_Cons)
  moreover have "f \<le> f'" "0 < f'" using e(4) f1pos by simp_all
  ultimately show ?case using e by blast
qed

lemma scan_trailer:
  assumes "holds m f xs" "LINE_FEED \<notin> set xs" "f + int (length xs) = uint n"
  shows "\<exists>c. fst (group_loop k m n ls f tg vl) = [Scan_read f c]"
proof -
  from memchr_holds_beyond [OF assms(1,2), of "unat (n - 1)"]
  have "group_step k m n ls f tg vl =
          ([Scan_read f (memchr_examined m f LINE_FEED (unat (n - 1)))], None, tg, vl)"
    using assms(3) by (auto simp: group_step_def Let_def)
  from group_loop_stop [OF this] show ?thesis by blast
qed

lemma scan_missing_cr:
  assumes "holds m f (gap @ LINE_FEED # tail)" "LINE_FEED \<notin> set gap"
    and "CARRIAGE_RETURN \<notin> set tail" "f + int (length (gap @ LINE_FEED # tail)) = uint n"
    and "0 \<le> f"
  shows "(\<exists>c. fst (group_loop k m n ls f tg vl) = [Scan_read f c] \<and> f = 0 \<and> tail = [])
       \<or> (\<exists>c c'. fst (group_loop k m n ls f tg vl) =
              [Scan_read f c, Scan_read (f + int (length gap) + 1) c', LogE No_group_found])"
proof -
  have N: "f + int (length gap) + 1 + int (length tail) = uint n" using assms(4) by simp
  then have "1 \<le> uint n" using assms(5) by linarith
  then have n1: "uint (n - 1) = uint n - 1" by (rule uint_pred)
  have hg: "holds m f gap" and ht: "holds m (f + int (length gap) + 1) tail"
    using assms(1) by (simp_all add: holds_append ac_simps)
  show ?thesis
  proof (cases "f = 0 \<and> tail = []")
    case True
    then have "uint (n - 1) = int (length gap)" using N n1 by simp
    then have "int (unat (n - 1)) = int (length gap)" by (simp only: uint_nat)
    then have "unat (n - 1) \<le> length gap" by (simp only: of_nat_eq_iff)
    with hg assms(2) have "memchr m f LINE_FEED (unat (n - 1)) = None"
      by (intro memchr_holds_absent)
    then have "group_step k m n ls f tg vl =
          ([Scan_read f (memchr_examined m f LINE_FEED (unat (n - 1)))], None, tg, vl)"
      by (simp add: group_step_def Let_def)
    from group_loop_stop [OF this] True show ?thesis by blast
  next
    case False
    then have "0 < f + int (length tail)" using assms(5) by (cases tail) auto
    then have "int (length gap) < uint (n - 1)" using N n1 by linarith
    then have "length gap < unat (n - 1)" by (rule less_unat)
    with assms(1,2) have lf: "memchr m f LINE_FEED (unat (n - 1)) = Some (f + int (length gap))"
      by (intro memchr_holds_present)
    have lt: "f + int (length gap) < uint n" using N by linarith
    let ?f1 = "f + int (length gap) + 1"
    have "0 \<le> uint n - ?f1" "uint n - ?f1 \<le> uint n" using N assms(5) by linarith+
    then have sz: "size_t_of (uint n - ?f1) = nat (uint n - ?f1)" by (rule size_t_of_nat)
    have "nat (uint n - ?f1) \<le> length tail" using N by linarith
    with ht assms(3) have cr: "memchr m ?f1 CARRIAGE_RETURN (nat (uint n - ?f1)) = None"
      by (intro memchr_holds_absent)
    have "group_step k m n ls f tg vl =
       ([Scan_read f (memchr_examined m f LINE_FEED (unat (n - 1))),
         Scan_read ?f1 (memchr_examined m ?f1 CARRIAGE_RETURN (nat (uint n - ?f1))),
         LogE No_group_found], None, tg, vl)"
      using lf lt cr sz by (simp add: group_step_def Let_def)
    from group_loop_stop [OF this] show ?thesis by blast
  qed
qed

fun is_call :: "event \<Rightarrow> bool" where
  "is_call (Publish_val i v) = True"
| "is_call e = False"

definition dispatch :: "u8 list list \<Rightarrow> u8 list \<times> u8 list \<Rightarrow> event list" where
  "dispatch ls tv =
     map (\<lambda>j. Publish_val j (snd tv)) (filter (\<lambda>j. ls ! j = fst tv) [0..<length ls])"

lemma publish_value_from_eq:
  "publish_value_from i t v ls =
     map (\<lambda>j. Publish_val (i + j) v) (filter (\<lambda>j. ls ! j = t) [0..<length ls])"
proof (induction ls arbitrary: i t)
  case Nil show ?case by simp
next
  case (Cons e es)
  have u: "[0..<length (e # es)] = 0 # map Suc [0..<length es]"
    by (simp add: upt_conv_Cons map_Suc_upt del: upt_Suc)
  have f: "filter (\<lambda>j. (e # es) ! j = t') (map Suc [0..<length es]) =
           map Suc (filter (\<lambda>j. es ! j = t') [0..<length es])" for t'
    by (simp add: filter_map comp_def)
  show ?case
    unfolding u by (auto simp: f Cons.IH comp_def)
qed

lemma publish_value_eq: "publish_value ls t v = dispatch ls (t, v)"
  by (simp add: publish_value_def dispatch_def publish_value_from_eq)

lemma filter_is_call_dispatch [simp]: "filter is_call (dispatch ls tv) = dispatch ls tv"
  by (simp add: dispatch_def filter_map comp_def)

lemma measurements_dispatch [simp]: "measurements (dispatch ls tv) = []"
  by (cases tv) (simp add: publish_value_eq [symmetric] publish_value_def)

lemma process_group_calls:
  "process_group k m ls f1 ge tg vl = (evs, r) \<Longrightarrow>
   filter is_call evs = concat (map (dispatch ls) (measurements evs))"
  by (auto simp: process_group_def Let_def publish_value_eq split: if_splits prod.splits)

lemma group_step_calls:
  "group_step k m n ls f tg vl = (evs, r) \<Longrightarrow>
   filter is_call evs = concat (map (dispatch ls) (measurements evs))"
  by (auto simp: group_step_def Let_def split: option.splits if_splits prod.splits
        dest!: process_group_calls)

lemma group_loop_calls:
  "filter is_call (fst (group_loop k m n ls f tg vl)) =
     concat (map (dispatch ls) (measurements (fst (group_loop k m n ls f tg vl))))"
proof (induction k m n ls f tg vl rule: group_loop.induct)
  case (1 k m n ls f tg vl)
  obtain evs nx tg' vl' where st: "group_step k m n ls f tg vl = (evs, nx, tg', vl')"
    by (cases "group_step k m n ls f tg vl") auto
  note c = group_step_calls [OF st]
  show ?case
  proof (cases nx)
    case None
    with st have "fst (group_loop k m n ls f tg vl) = evs" by (simp add: group_loop_stop)
    with c show ?thesis by simp
  next
    case (Some f')
    with st have e: "fst (group_loop k m n ls f tg vl) = evs @ fst (group_loop k m n ls f' tg' vl')"
      by (simp add: group_loop_continue)
    have "filter is_call (fst (group_loop k m n ls f' tg' vl')) =
     concat (map (dispatch ls) (measurements (fst (group_loop k m n ls f' tg' vl'))))"
      using "1.IH" [of evs "(nx, tg', vl')" nx "(tg', vl')" f' tg' vl'] st Some by simp
    with c e show ?thesis by simp
  qed
qed

lemma loop_parse:
  assumes "state r = END_FRAME_RECEIVED"
  shows "out (loop r) = out r @ fst (group_loop (checksum_area_end r) (buf r) (buf_index r)
                                   (mk2pvrouter_listeners r) 0 (tag r) (val r))
       \<and> state (loop r) = OFF"
  using assms by (simp add: loop_def split: prod.splits)

lemma valid_measurements_append:
  "valid_measurements k (gs1 @ gs2) = valid_measurements k gs1 @ valid_measurements k gs2"
  by (simp add: valid_measurements_def)

lemma scan_frame:
  assumes "\<forall>g\<in>set gs. well_formed_group g" "LINE_FEED \<notin> set trailer" "0 \<le> k"
    and "holds m 0 (frame_of gs @ trailer)" "int (length (frame_of gs @ trailer)) = uint n"
  shows "measurements (fst (group_loop k m n ls 0 tg vl)) = valid_measurements k gs"
proof -
  have h: "holds m 0 ([] @ frame_of gs @ trailer)" using assms(4) by simp
  have N: "0 + int (length ([] @ frame_of gs @ trailer)) = uint n" using assms(5) by simp
  have e: "LINE_FEED \<notin> set []" by simp
  from scan_groups [OF assms(1) e order_refl assms(3) h N, of ls tg vl]
  obtain evs f' tg' vl' gap' where
    r: "fst (group_loop k m n ls 0 tg vl) = evs @ fst (group_loop k m n ls f' tg' vl')" and
    ms: "measurements evs = valid_measurements k gs" and
    g: "LINE_FEED \<notin> set gap'" and h': "holds m f' (gap' @ trailer)" and
    N': "f' + int (length (gap' @ trailer)) = uint n"
    by blast
  have "LINE_FEED \<notin> set (gap' @ trailer)" using g assms(2) by simp
  from scan_trailer [OF h' this N', of k ls tg' vl'] obtain c where
    "fst (group_loop k m n ls f' tg' vl') = [Scan_read f' c]" by blast
  with r ms show ?thesis by simp
qed

lemma scan_frame_missing_cr:
  assumes "\<forall>g\<in>set gs. well_formed_group g" "LINE_FEED \<notin> set gap" "0 \<le> k"
    and "CARRIAGE_RETURN \<notin> set tail"
    and "holds m 0 (frame_of gs @ gap @ LINE_FEED # tail)"
    and "int (length (frame_of gs @ gap @ LINE_FEED # tail)) = uint n"
  shows "measurements (fst (group_loop k m n ls 0 tg vl)) = valid_measurements k gs \<and>
         (gs \<noteq> [] \<or> tail \<noteq> [] \<longrightarrow>
            (\<exists>pre a c b c'. fst (group_loop k m n ls 0 tg vl) =
                pre @ [Scan_read a c, Scan_read b c', LogE No_group_found]))"
proof -
  let ?rest = "gap @ LINE_FEED # tail"
  have h: "holds m 0 ([] @ frame_of gs @ ?rest)" using assms(5) by simp
  have N: "0 + int (length ([] @ frame_of gs @ ?rest)) = uint n" using assms(6) by simp
  have e: "LINE_FEED \<notin> set []" by simp
  from scan_groups [OF assms(1) e order_refl assms(3) h N, of ls tg vl]
  obtain evs f' tg' vl' gap' where
    r: "fst (group_loop k m n ls 0 tg vl) = evs @ fst (group_loop k m n ls f' tg' vl')" and
    ms: "measurements evs = valid_measurements k gs" and
    g: "LINE_FEED \<notin> set gap'" and h': "holds m f' (gap' @ ?rest)" and
    N': "f' + int (length (gap' @ ?rest)) = uint n" and
    pos: "0 \<le> f'" "gs \<noteq> [] \<longrightarrow> 0 < f'"
    by blast
  have h2: "holds m f' ((gap' @ gap) @ LINE_FEED # tail)" using h' by simp
  have g2: "LINE_FEED \<notin> set (gap' @ gap)" using g assms(2) by simp
  have N2: "f' + int (length ((gap' @ gap) @ LINE_FEED # tail)) = uint n" using N' by simp
  from scan_missing_cr [OF h2 g2 assms(4) N2 pos(1), of k ls tg' vl']
  consider c where "fst (group_loop k m n ls f' tg' vl') = [Scan_read f' c]" "f' = 0" "tail = []"
    | c c' where "fst (group_loop k m n ls f' tg' vl') =
              [Scan_read f' c, Scan_read (f' + int (length (gap' @ gap)) + 1) c', LogE No_group_found]"
    by blast
  then show ?thesis
  proof cases
    case 1
    then have "\<not> (gs \<noteq> [] \<or> tail \<noteq> [])" using pos(2) by auto
    with 1 r ms show ?thesis by simp
  next
    case 2
    with r ms show ?thesis by auto
  qed
qed

lemma measurement_of_text:
  "0 \<notin> set (tag_of body) \<Longrightarrow> 0 \<notin> set (val_of body) \<Longrightarrow>
   measurement_of body = (tag_of body, val_of body)"
  by (auto simp: measurement_of_def c_str_def)

lemmas spec_simps =
  valid_group_def crc_ok_def checksum_of_def tag_of_def val_of_def after_tag_def field_def
  measurement_of_def c_str_def well_formed_group_def frame_of_def group_bytes_def
  body_AB_def body_bad_def body_empty_tag_def

lemmas R_parse_simps = R_parse_def register_mk2pvrouter_listener_def Mk2PVRouter_def

lemma holds_mem_of: "holds (mem_of xs) 0 xs"
  by (simp add: holds_iff mem_of_def)

lemma valid_measurements_skip:
  "\<not> valid_group k (snd g) \<Longrightarrow>
   valid_measurements k (gs1 @ g # gs2) = valid_measurements k gs1 @ valid_measurements k gs2"
  by (simp add: valid_measurements_def)

lemma get_field_empty:
  assumes "s < e" "e - s < 2 ^ 32" "m s = TAB"
  shows "fst (get_field dest m s e mx) = 0"
proof -
  have "0 < size_t_of (e - s)" using assms(1,2) by (simp add: size_t_of_def)
  then obtain c where "size_t_of (e - s) = Suc c" by (cases "size_t_of (e - s)") auto
  then have "memchr m s TAB (size_t_of (e - s)) = Some s" using assms(3) by simp
  then show ?thesis by (simp add: get_field_def Let_def)
qed

subsection \<open>Valid records are dispatched\<close>

text \<open>
  C1, as the code has it. The buffer holds a frame made of groups (bytes without a line
  feed, a line feed, a body without line feed or carriage return, a carriage return) and a
  trailer without a line feed. Then the parse emits one measurement for each valid body
  and none for the others, in the order of the frame; the measurement carries the tag and
  the value of the body, each cut at its first NUL byte, so the tag and the value
  themselves when they hold no NUL byte; the listener calls of the parse are, measurement
  by measurement, the calls of the listeners whose tag equals the measurement's tag, each
  once, with the measurement's value, in registration order.
\<close>

theorem valid_records_dispatched:
  assumes "state r = END_FRAME_RECEIVED" and "0 \<le> checksum_area_end r"
    and "\<forall>g\<in>set gs. well_formed_group g" and "LINE_FEED \<notin> set trailer"
    and "holds (buf r) 0 (frame_of gs @ trailer)"
    and "int (length (frame_of gs @ trailer)) = uint (buf_index r)"
  shows "(\<exists>evs. out (loop r) = out r @ evs \<and>
            measurements evs =
              map measurement_of (filter (valid_group (checksum_area_end r)) (map snd gs)) \<and>
            filter is_call evs =
              concat (map (dispatch (mk2pvrouter_listeners r)) (measurements evs)))
       \<and> (\<forall>g\<in>set gs. 0 \<notin> set (tag_of (snd g)) \<and> 0 \<notin> set (val_of (snd g)) \<longrightarrow>
              measurement_of (snd g) = (tag_of (snd g), val_of (snd g)))
       \<and> (\<forall>t v. publish_value (mk2pvrouter_listeners r) t v =
              map (\<lambda>j. Publish_val j v)
                (filter (\<lambda>j. mk2pvrouter_listeners r ! j = t) [0..<length (mk2pvrouter_listeners r)]))"
proof (intro conjI)
  let ?evs = "fst (group_loop (checksum_area_end r) (buf r) (buf_index r)
                     (mk2pvrouter_listeners r) 0 (tag r) (val r))"
  have o: "out (loop r) = out r @ ?evs" using loop_parse [OF assms(1)] by simp
  have m: "measurements ?evs =
      map measurement_of (filter (valid_group (checksum_area_end r)) (map snd gs))"
    using scan_frame [OF assms(3,4,2,5,6)] by (simp add: valid_measurements_def)
  have c: "filter is_call ?evs = concat (map (dispatch (mk2pvrouter_listeners r)) (measurements ?evs))"
    by (rule group_loop_calls)
  from o m c show "\<exists>evs. out (loop r) = out r @ evs \<and>
            measurements evs =
              map measurement_of (filter (valid_group (checksum_area_end r)) (map snd gs)) \<and>
            filter is_call evs =
              concat (map (dispatch (mk2pvrouter_listeners r)) (measurements evs))"
    by blast
  show "\<forall>g\<in>set gs. 0 \<notin> set (tag_of (snd g)) \<and> 0 \<notin> set (val_of (snd g)) \<longrightarrow>
              measurement_of (snd g) = (tag_of (snd g), val_of (snd g))"
    by (simp add: measurement_of_text)
  show "\<forall>t v. publish_value (mk2pvrouter_listeners r) t v =
              map (\<lambda>j. Publish_val j v)
                (filter (\<lambda>j. mk2pvrouter_listeners r ! j = t) [0..<length (mk2pvrouter_listeners r)])"
    by (simp add: publish_value_eq dispatch_def)
qed

theorem valid_records_dispatched_witness:
  "state (R_parse (frame_of [([], body_AB)] @ [])) = END_FRAME_RECEIVED
   \<and> 0 \<le> checksum_area_end (R_parse (frame_of [([], body_AB)] @ []))
   \<and> well_formed_group ([], body_AB)
   \<and> holds (buf (R_parse (frame_of [([], body_AB)] @ []))) 0 (frame_of [([], body_AB)] @ [])
   \<and> int (length (frame_of [([], body_AB)] @ []))
       = uint (buf_index (R_parse (frame_of [([], body_AB)] @ [])))
   \<and> (\<exists>evs. out (loop (R_parse (frame_of [([], body_AB)] @ [])))
              = out (R_parse (frame_of [([], body_AB)] @ [])) @ evs
         \<and> measurements evs = [([0x41], [0x42])]
         \<and> filter is_call evs = [Publish_val 0 [0x42]])"
proof -
  let ?F = "frame_of [([], body_AB)] @ []"
  let ?R = "R_parse ?F"
  have h1: "state ?R = END_FRAME_RECEIVED" by (simp add: R_parse_simps)
  have h2: "0 \<le> checksum_area_end ?R" by (simp add: R_parse_simps)
  have w: "well_formed_group ([], body_AB)" by (simp add: spec_simps eval_simps)
  then have h3: "\<forall>g\<in>set [([], body_AB)]. well_formed_group g" by simp
  have h4: "LINE_FEED \<notin> set []" by simp
  have h5: "holds (buf ?R) 0 ?F" by (simp add: R_parse_simps holds_mem_of)
  have h6: "int (length ?F) = uint (buf_index ?R)" by (simp add: R_parse_simps spec_simps)
  have v: "map measurement_of (filter (valid_group (checksum_area_end ?R)) (map snd [([], body_AB)]))
      = [([0x41], [0x42])]"
    by (simp add: R_parse_simps spec_simps eval_simps)
  have d: "dispatch (mk2pvrouter_listeners (R_parse F)) ([0x41], [0x42]) = [Publish_val 0 [0x42]]"
    for F by (simp add: R_parse_simps dispatch_def)
  from valid_records_dispatched [OF h1 h2 h3 h4 h5 h6, THEN conjunct1]
  obtain evs where e: "out (loop ?R) = out ?R @ evs" "measurements evs = [([0x41], [0x42])]"
    "filter is_call evs = concat (map (dispatch (mk2pvrouter_listeners ?R)) (measurements evs))"
    unfolding v by blast
  have "filter is_call evs = [Publish_val 0 [0x42]]"
    by (simp add: e(3) e(2) d)
  with e(1,2) have "\<exists>evs. out (loop ?R) = out ?R @ evs \<and> measurements evs = [([0x41], [0x42])]
         \<and> filter is_call evs = [Publish_val 0 [0x42]]"
    by blast
  with h1 h2 w h5 h6 show ?thesis by blast
qed

text \<open>
  C1 as stated fails for a tag with a NUL byte: the record \<open>A NUL C TAB B TAB 8\<close> has a
  valid checksum, a tag of three bytes and a value of one byte, but the measurement emitted
  for it carries the tag \<open>A\<close>, because \<open>std::string(tag_)\<close> ends at the NUL.
\<close>

theorem nul_tag_counterexample:
  "well_formed_group ([], [0x41, 0x00, 0x43, 0x09, 0x42, 0x09, 0x38])
   \<and> valid_group 1 [0x41, 0x00, 0x43, 0x09, 0x42, 0x09, 0x38]
   \<and> tag_of [0x41, 0x00, 0x43, 0x09, 0x42, 0x09, 0x38] = [0x41, 0x00, 0x43]
   \<and> val_of [0x41, 0x00, 0x43, 0x09, 0x42, 0x09, 0x38] = [0x42]
   \<and> measurements (out (loop (loop (loop (update (Mk2PVRouter (\<lambda>i. 0) (\<lambda>i. 0) (\<lambda>i. 0)
        [0x02, 0x0a, 0x41, 0x00, 0x43, 0x09, 0x42, 0x09, 0x38, 0x0d, 0x03]))))))
      = [([0x41], [0x42])]"
  by (simp add: spec_simps run_simps upt_rec)

subsection \<open>The scan depends on the filled part of the buffer only\<close>

text \<open>
  The trace without the record of which bytes a search examined: what the component logged,
  published, checked and stored.
\<close>

fun is_read :: "event \<Rightarrow> bool" where
  "is_read (Scan_read a c) = True"
| "is_read e = False"

definition effects :: "event list \<Rightarrow> event list" where
  "effects evs = filter (\<lambda>e. \<not> is_read e) evs"

lemma effects_append [simp]: "effects (xs @ ys) = effects xs @ effects ys"
  by (simp add: effects_def)

lemma effects_Scan_read [simp]: "effects (Scan_read a c # xs) = effects xs"
  by (simp add: effects_def)

lemma effects_Nil [simp]: "effects [] = []"
  by (simp add: effects_def)






lemma get_field_len_lt:
  assumes "get_field dest m s e mx = (l, d)" "l \<noteq> 0" "s \<le> e" "e - s < 2 ^ 32"
  shows "l < e - s"
proof -
  have sz: "int (size_t_of (e - s)) = e - s" using assms(3,4) by (simp add: size_t_of_id)
  from assms(1,2) obtain p where p: "memchr m s TAB (size_t_of (e - s)) = Some p" and l: "l = p - s"
    by (auto simp: get_field_def Let_def split: option.splits if_splits)
  from memchr_lt [OF p] sz l show ?thesis by simp
qed


lemma group_step_stop:
  assumes "\<And>p. memchr m f LINE_FEED (unat (n - 1)) = Some p \<Longrightarrow> \<not> p < uint n"
  shows "group_step k m n ls f tg vl =
           ([Scan_read f (memchr_examined m f LINE_FEED (unat (n - 1)))], None, tg, vl)"
  using assms by (auto simp: group_step_def Let_def split: option.splits)

lemma group_step_found:
  assumes "memchr m f LINE_FEED (unat (n - 1)) = Some p" "p < uint n"
  shows "group_step k m n ls f tg vl =
     (case memchr m (p + 1) CARRIAGE_RETURN (size_t_of (uint n - (p + 1))) of
        None \<Rightarrow>
          ([Scan_read f (memchr_examined m f LINE_FEED (unat (n - 1))),
            Scan_read (p + 1)
              (memchr_examined m (p + 1) CARRIAGE_RETURN (size_t_of (uint n - (p + 1)))),
            LogE No_group_found], None, tg, vl)
      | Some ge \<Rightarrow>
          (case process_group k m ls (p + 1) ge tg vl of
             (evs, f', tg', vl') \<Rightarrow>
               ([Scan_read f (memchr_examined m f LINE_FEED (unat (n - 1))),
                 Scan_read (p + 1)
                   (memchr_examined m (p + 1) CARRIAGE_RETURN (size_t_of (uint n - (p + 1))))] @ evs,
                Some f', tg', vl')))"
  using assms by (simp add: group_step_def Let_def split: option.splits prod.splits)


lemma group_loop_continue_snd:
  "group_step k m n ls f tg vl = (evs, Some f', tg', vl') \<Longrightarrow>
   snd (group_loop k m n ls f tg vl) = snd (group_loop k m n ls f' tg' vl')"
  by (simp add: group_loop.simps [of k m n ls f tg vl] split: prod.splits)

lemma group_loop_stop_snd:
  "group_step k m n ls f tg vl = (evs, None, tg', vl') \<Longrightarrow>
   snd (group_loop k m n ls f tg vl) = (tg', vl')"
  by (simp add: group_loop.simps [of k m n ls f tg vl])









subsection \<open>Overflow discards the frame\<close>




subsection \<open>Passes of the group scan\<close>

text \<open>
  The first \<open>i\<close> passes of the while loop of \<open>loop()\<close> from the cursor
  \<open>buf_finger\<close>: the effects, the cursor for the next evaluation of the condition
  (\<open>None\<close> when the loop was left before), and the two arrays.
\<close>

primrec group_passes ::
  "nat \<Rightarrow> int \<Rightarrow> mem \<Rightarrow> 32 word \<Rightarrow> u8 list list \<Rightarrow> int \<Rightarrow> mem \<Rightarrow> mem
     \<Rightarrow> event list \<times> int option \<times> mem \<times> mem" where
  "group_passes 0 cae m n listeners buf_finger tg vl = ([], Some buf_finger, tg, vl)"
| "group_passes (Suc i) cae m n listeners buf_finger tg vl =
     (case group_step cae m n listeners buf_finger tg vl of
        (evs, None, tg', vl') \<Rightarrow> (evs, None, tg', vl')
      | (evs, Some buf_finger', tg', vl') \<Rightarrow>
          (case group_passes i cae m n listeners buf_finger' tg' vl' of
             (evs', nx, tg'', vl'') \<Rightarrow> (evs @ evs', nx, tg'', vl'')))"

text \<open>
  The loop body takes one of its three \<open>continue\<close> statements for the group
  \<open>[f1, grp_end)\<close>: \<open>check_crc_\<close> fails, or \<open>get_field\<close> returns 0 or a length
  that does not fit, for the tag or for the value.
\<close>

definition record_fails :: "int \<Rightarrow> mem \<Rightarrow> int \<Rightarrow> int \<Rightarrow> mem \<Rightarrow> mem \<Rightarrow> bool" where
  "record_fails cae m f1 grp_end tg vl \<longleftrightarrow>
     \<not> check_crc cae m f1 grp_end \<or>
     (case get_field tg m f1 grp_end MAX_TAG_SIZE of (field_len, tg') \<Rightarrow>
        field_len = 0 \<or> field_len \<ge> MAX_TAG_SIZE \<or>
        (case get_field vl m (f1 + (field_len + 1)) grp_end MAX_VAL_SIZE of (field_len2, vl') \<Rightarrow>
           field_len2 = 0 \<or> field_len2 \<ge> MAX_VAL_SIZE))"

lemma group_passes_loop:
  "group_passes i k m n ls f tg vl = (evs, Some f', tg', vl') \<Longrightarrow>
   fst (group_loop k m n ls f tg vl) = evs @ fst (group_loop k m n ls f' tg' vl') \<and>
   snd (group_loop k m n ls f tg vl) = snd (group_loop k m n ls f' tg' vl') \<and> f \<le> f'"
proof (induction i arbitrary: f tg vl evs)
  case 0 then show ?case by simp
next
  case (Suc i)
  obtain e1 nx t1 v1 where st: "group_step k m n ls f tg vl = (e1, nx, t1, v1)"
    by (cases "group_step k m n ls f tg vl") auto
  show ?case
  proof (cases nx)
    case None with Suc.prems st show ?thesis by simp
  next
    case (Some f1)
    obtain e2 nx2 t2 v2 where gp: "group_passes i k m n ls f1 t1 v1 = (e2, nx2, t2, v2)"
      by (cases "group_passes i k m n ls f1 t1 v1") auto
    from Suc.prems st Some gp have eq: "evs = e1 @ e2" "nx2 = Some f'" "t2 = tg'" "v2 = vl'"
      by simp_all
    have gp': "group_passes i k m n ls f1 t1 v1 = (e2, Some f', tg', vl')" using gp eq by simp
    note ih = Suc.IH [OF gp']
    have st': "group_step k m n ls f tg vl = (e1, Some f1, t1, v1)" using st Some by simp
    have "f < f1" using group_step_advances [OF st'] by simp
    with ih group_loop_continue [OF st'] group_loop_continue_snd [OF st'] eq(1)
    show ?thesis by simp
  qed
qed

lemma group_passes_snoc:
  "group_passes i k m n ls f tg vl = (evs, Some f', tg', vl') \<Longrightarrow>
   group_passes (Suc i) k m n ls f tg vl =
     (case group_step k m n ls f' tg' vl' of (e, nx, t, v) \<Rightarrow> (evs @ e, nx, t, v))"
proof (induction i arbitrary: f tg vl evs)
  case 0 then show ?case by (simp split: prod.splits option.splits)
next
  case (Suc i)
  obtain e1 nx t1 v1 where st: "group_step k m n ls f tg vl = (e1, nx, t1, v1)"
    by (cases "group_step k m n ls f tg vl") auto
  show ?case
  proof (cases nx)
    case None with Suc.prems st show ?thesis by simp
  next
    case (Some f1)
    obtain e2 nx2 t2 v2 where gp: "group_passes i k m n ls f1 t1 v1 = (e2, nx2, t2, v2)"
      by (cases "group_passes i k m n ls f1 t1 v1") auto
    from Suc.prems st Some gp have eq: "evs = e1 @ e2" "nx2 = Some f'" "t2 = tg'" "v2 = vl'"
      by simp_all
    have gp': "group_passes i k m n ls f1 t1 v1 = (e2, Some f', tg', vl')" using gp eq by simp
    have "group_passes (Suc (Suc i)) k m n ls f tg vl =
        (case group_passes (Suc i) k m n ls f1 t1 v1 of
           (evs', nx, tg'', vl'') \<Rightarrow> (e1 @ evs', nx, tg'', vl''))"
      using st Some by simp
    also have "\<dots> = (case group_step k m n ls f' tg' vl' of (e, nx, t, v) \<Rightarrow> (evs @ e, nx, t, v))"
      unfolding Suc.IH [OF gp'] by (simp add: eq split: prod.splits)
    finally show ?thesis .
  qed
qed

lemma process_group_fails:
  assumes "record_fails k m f1 ge tg vl" "f1 \<le> ge" "ge - f1 < 2 ^ 32"
  shows "\<exists>d f' tg' vl'. process_group k m ls f1 ge tg vl = ([Crc_check f1 ge, LogE d], f', tg', vl')
           \<and> f1 \<le> f' \<and> f' \<le> ge"
proof (cases "check_crc k m f1 ge")
  case False
  then show ?thesis using assms(2) by (simp add: process_group_def)
next
  case crc: True
  obtain l t1 where g1: "get_field tg m f1 ge MAX_TAG_SIZE = (l, t1)"
    by (cases "get_field tg m f1 ge MAX_TAG_SIZE") auto
  show ?thesis
  proof (cases "l = 0 \<or> l \<ge> MAX_TAG_SIZE")
    case True
    then show ?thesis using crc g1 assms(2) by (simp add: process_group_def)
  next
    case False
    then have l0: "l \<noteq> 0" by simp
    have ll: "l < ge - f1" using g1 l0 assms(2,3) by (rule get_field_len_lt)
    have lp: "0 \<le> l" using g1 by (rule get_field_len_nonneg)
    obtain l2 v1 where g2: "get_field vl m (f1 + (l + 1)) ge MAX_VAL_SIZE = (l2, v1)"
      by (cases "get_field vl m (f1 + (l + 1)) ge MAX_VAL_SIZE") auto
    have bad: "l2 = 0 \<or> l2 \<ge> MAX_VAL_SIZE"
      using assms(1) crc g1 g2 False by (simp add: record_fails_def)
    have "process_group k m ls f1 ge tg vl =
        ([Crc_check f1 ge, LogE (Invalid_value (std_string t1 (nat MAX_TAG_SIZE)))],
         f1 + (l + 1), t1, v1)"
      using crc g1 g2 False bad by (simp add: process_group_def Let_def)
    moreover have "f1 \<le> f1 + (l + 1)" "f1 + (l + 1) \<le> ge" using ll lp by simp_all
    ultimately show ?thesis by blast
  qed
qed

lemma memchr_skip:
  assumes "f \<le> g" "\<forall>a. f \<le> a \<and> a < g \<longrightarrow> m a \<noteq> c" "N \<le> f + int cnt"
    and "memchr m f c cnt = Some p" "p < N"
  shows "memchr m g c cnt = Some p"
proof (rule memchr_found)
  have fp: "f \<le> p" using assms(4) by (rule memchr_ge)
  have hit: "m p = c" using assms(4) by (rule memchr_hit)
  show "g \<le> p"
  proof (rule ccontr)
    assume "\<not> g \<le> p"
    then have "f \<le> p \<and> p < g" using fp by simp
    with assms(2) have "m p \<noteq> c" by blast
    with hit show False by simp
  qed
  show "p < g + int cnt" using assms(1,3,5) by simp
  show "m p = c" by (rule hit)
  show "\<forall>a. g \<le> a \<and> a < p \<longrightarrow> m a \<noteq> c"
    using memchr_first [OF assms(4)] assms(1) by auto
qed

lemma memchr_unskip:
  assumes "f \<le> g" "\<forall>a. f \<le> a \<and> a < g \<longrightarrow> m a \<noteq> c" "N \<le> f + int cnt"
    and "memchr m g c cnt = Some p" "p < N"
  shows "memchr m f c cnt = Some p"
proof (rule memchr_found)
  have gp: "g \<le> p" using assms(4) by (rule memchr_ge)
  show "f \<le> p" using gp assms(1) by simp
  show "p < f + int cnt" using assms(3,5) by simp
  show "m p = c" using assms(4) by (rule memchr_hit)
  show "\<forall>a. f \<le> a \<and> a < p \<longrightarrow> m a \<noteq> c"
  proof (intro allI impI)
    fix a assume a: "f \<le> a \<and> a < p"
    show "m a \<noteq> c"
    proof (cases "a < g")
      case True with a assms(2) show ?thesis by simp
    next
      case False with a memchr_first [OF assms(4), of a] show ?thesis by simp
    qed
  qed
qed

lemma group_step_skip:
  assumes f: "1 \<le> f" "f \<le> g" and n: "1 \<le> uint n"
    and nolf: "\<forall>a. f \<le> a \<and> a < g \<longrightarrow> m a \<noteq> LINE_FEED"
    and st: "group_step k m n ls f tg vl = (evs, nx, tg', vl')"
  shows "\<exists>evs'. group_step k m n ls g tg vl = (evs', nx, tg', vl') \<and> effects evs' = effects evs"
proof -
  let ?N = "uint n"
  let ?c = "unat (n - 1)"
  have c: "int ?c = ?N - 1" using uint_pred [OF n] by (simp only: uint_nat [symmetric])
  then have w: "?N \<le> f + int ?c" using f(1) by simp
  show ?thesis
  proof (cases "\<exists>p. memchr m f LINE_FEED ?c = Some p \<and> p < ?N")
    case False
    then have s1: "\<And>p. memchr m f LINE_FEED ?c = Some p \<Longrightarrow> \<not> p < ?N" by blast
    have s2: "\<And>p. memchr m g LINE_FEED ?c = Some p \<Longrightarrow> \<not> p < ?N"
    proof
      fix p assume a: "memchr m g LINE_FEED ?c = Some p" "p < ?N"
      from memchr_unskip [OF f(2) nolf w a] a(2) False show False by blast
    qed
    from st group_step_stop [of m f n k ls tg vl, OF s1]
    have "nx = None" "tg' = tg" "vl' = vl" "effects evs = []" by auto
    with group_step_stop [of m g n k ls tg vl, OF s2] show ?thesis by simp
  next
    case True
    then obtain p where lf: "memchr m f LINE_FEED ?c = Some p" and lt: "p < ?N" by blast
    from memchr_skip [OF f(2) nolf w lf lt] have lf': "memchr m g LINE_FEED ?c = Some p" .
    note a = group_step_found [OF lf lt, of k ls tg vl]
    note b = group_step_found [OF lf' lt, of k ls tg vl]
    show ?thesis
    proof (cases "memchr m (p + 1) CARRIAGE_RETURN (size_t_of (?N - (p + 1)))")
      case None
      with st a have "nx = None" "tg' = tg" "vl' = vl" "effects evs = [LogE No_group_found]"
        by (auto simp: effects_def)
      moreover from None b have "\<exists>e. group_step k m n ls g tg vl = (e, None, tg, vl) \<and>
          effects e = [LogE No_group_found]"
        by (simp add: effects_def)
      ultimately show ?thesis by auto
    next
      case (Some ge)
      obtain e0 f0 t0 v0 where p0: "process_group k m ls (p + 1) ge tg vl = (e0, f0, t0, v0)"
        by (cases "process_group k m ls (p + 1) ge tg vl") auto
      from st a Some p0 have "nx = Some f0" "tg' = t0" "vl' = v0" "effects evs = effects e0"
        by auto
      moreover have "\<exists>e. group_step k m n ls g tg vl = (e, Some f0, t0, v0) \<and>
          effects e = effects e0"
        by (simp add: b Some p0)
      ultimately show ?thesis by auto
    qed
  qed
qed

lemma group_loop_skip:
  assumes "1 \<le> f" "f \<le> g" "1 \<le> uint n" "\<forall>a. f \<le> a \<and> a < g \<longrightarrow> m a \<noteq> LINE_FEED"
  shows "effects (fst (group_loop k m n ls f tg vl)) = effects (fst (group_loop k m n ls g tg vl))
       \<and> snd (group_loop k m n ls f tg vl) = snd (group_loop k m n ls g tg vl)"
proof -
  obtain evs nx tg' vl' where st: "group_step k m n ls f tg vl = (evs, nx, tg', vl')"
    by (cases "group_step k m n ls f tg vl") auto
  from group_step_skip [OF assms st] obtain evs' where
    st': "group_step k m n ls g tg vl = (evs', nx, tg', vl')" and e: "effects evs' = effects evs"
    by blast
  show ?thesis
  proof (cases nx)
    case None
    with st st' e show ?thesis by (simp add: group_loop_stop group_loop_stop_snd)
  next
    case (Some f')
    with st st' e show ?thesis by (simp add: group_loop_continue group_loop_continue_snd)
  qed
qed

lemma loop_parse_arrays:
  assumes "state r = END_FRAME_RECEIVED"
  shows "(tag (loop r), val (loop r)) =
           snd (group_loop (checksum_area_end r) (buf r) (buf_index r)
                  (mk2pvrouter_listeners r) 0 (tag r) (val r))"
  using assms by (simp add: loop_def split: prod.splits)

subsection \<open>Failures of one record and of the frame\<close>

text \<open>
  Two routers for evaluation, each with one listener for the tag \<open>A\<close>: one about to parse
  a group with a wrong checksum followed by a valid group, and one about to parse a valid
  group followed by a line feed with no carriage return after it.
\<close>

definition R_local :: router where
  "R_local = R_parse (frame_of [([], body_bad), ([], body_AB)])"

definition R_fatal :: router where
  "R_fatal = R_parse (frame_of [([], body_AB)] @ [LINE_FEED, 0x45])"

text \<open>
  C7. The loop has made any number of passes over the frame, with the effects \<open>before\<close>,
  and its next line-feed search finds a line feed below the fill length.

  If the carriage-return search finds the end of the group and the group fails (checksum
  mismatch; no tab, an empty field or a field that is too long, for the tag or for the
  value), the pass adds to the trace the two searches, the checksum check and one
  diagnostic; nothing is published, and the loop goes on to its next pass with the cursor
  inside the failed group, behind its line feed. The rest of the parse follows in the
  trace. When the failed group has no line feed in it, that rest does what a parse from
  behind the group's carriage return does (the bytes the next search examines apart);
  otherwise the next line feed inside the failed group starts the next group.

  If there is no carriage return between the line feed and the fill length, the parse ends
  with the diagnostic: the trace is the effects of the earlier passes, kept as they are,
  followed by the two searches and the diagnostic, and \<open>tag_\<close> and \<open>val_\<close> are as the
  earlier passes left them.

  In every case \<open>loop()\<close> ends in OFF.
\<close>

theorem record_failures_are_local:
  assumes "state r = END_FRAME_RECEIVED"
    and "group_passes i (checksum_area_end r) (buf r) (buf_index r) (mk2pvrouter_listeners r)
           0 (tag r) (val r) = (before, Some f, tg, vl)"
    and "memchr (buf r) f LINE_FEED (unat (buf_index r - 1)) = Some lf"
    and "lf < uint (buf_index r)"
  shows "state (loop r) = OFF
    \<and> (\<forall>ge. memchr (buf r) (lf + 1) CARRIAGE_RETURN (size_t_of (uint (buf_index r) - (lf + 1)))
               = Some ge
             \<and> record_fails (checksum_area_end r) (buf r) (lf + 1) ge tg vl \<longrightarrow>
          (\<exists>a c b c' d f' tg' vl'.
             group_passes (Suc i) (checksum_area_end r) (buf r) (buf_index r)
                 (mk2pvrouter_listeners r) 0 (tag r) (val r)
               = (before @ [Scan_read a c, Scan_read b c', Crc_check (lf + 1) ge, LogE d],
                  Some f', tg', vl')
             \<and> lf < f' \<and> f' \<le> ge
             \<and> out (loop r) =
                 out r @ before @ [Scan_read a c, Scan_read b c', Crc_check (lf + 1) ge, LogE d] @
                 fst (group_loop (checksum_area_end r) (buf r) (buf_index r)
                        (mk2pvrouter_listeners r) f' tg' vl')
             \<and> ((\<forall>x. lf + 1 \<le> x \<and> x < ge \<longrightarrow> buf r x \<noteq> LINE_FEED) \<longrightarrow>
                  effects (fst (group_loop (checksum_area_end r) (buf r) (buf_index r)
                                  (mk2pvrouter_listeners r) f' tg' vl')) =
                  effects (fst (group_loop (checksum_area_end r) (buf r) (buf_index r)
                                  (mk2pvrouter_listeners r) (ge + 1) tg' vl'))
                  \<and> snd (group_loop (checksum_area_end r) (buf r) (buf_index r)
                                  (mk2pvrouter_listeners r) f' tg' vl') =
                    snd (group_loop (checksum_area_end r) (buf r) (buf_index r)
                                  (mk2pvrouter_listeners r) (ge + 1) tg' vl'))))
    \<and> ((\<forall>x. lf + 1 \<le> x \<and> x < uint (buf_index r) \<longrightarrow> buf r x \<noteq> CARRIAGE_RETURN) \<longrightarrow>
          (\<exists>a c b c'.
             group_passes (Suc i) (checksum_area_end r) (buf r) (buf_index r)
                 (mk2pvrouter_listeners r) 0 (tag r) (val r)
               = (before @ [Scan_read a c, Scan_read b c', LogE No_group_found], None, tg, vl)
             \<and> out (loop r) =
                 out r @ before @ [Scan_read a c, Scan_read b c', LogE No_group_found])
          \<and> tag (loop r) = tg \<and> val (loop r) = vl)"
proof (intro conjI allI impI)
  let ?k = "checksum_area_end r" and ?m = "buf r" and ?n = "buf_index r"
  let ?ls = "mk2pvrouter_listeners r"
  let ?N = "uint ?n"
  let ?f1 = "lf + 1"
  note lp = loop_parse [OF assms(1)]
  note la = loop_parse_arrays [OF assms(1)]
  note gl = group_passes_loop [OF assms(2)]
  note snoc = group_passes_snoc [OF assms(2)]
  note gsf = group_step_found [OF assms(3,4), of ?k ?ls tg vl]
  have f0: "0 \<le> f" using gl by simp
  have fl: "f \<le> lf" using assms(3) by (rule memchr_ge)
  have b: "0 \<le> ?N - ?f1" "?N - ?f1 \<le> ?N" using assms(4) fl f0 by simp_all
  then have sz: "size_t_of (?N - ?f1) = nat (?N - ?f1)" by (rule size_t_of_nat)
  show "state (loop r) = OFF" using lp by simp
  {
    fix ge
    assume h: "memchr ?m ?f1 CARRIAGE_RETURN (size_t_of (?N - ?f1)) = Some ge
               \<and> record_fails ?k ?m ?f1 ge tg vl"
    then have cr: "memchr ?m ?f1 CARRIAGE_RETURN (size_t_of (?N - ?f1)) = Some ge"
      and rf: "record_fails ?k ?m ?f1 ge tg vl" by simp_all
    have ge1: "?f1 \<le> ge" using cr by (rule memchr_ge)
    have ge2: "ge < ?N" using memchr_lt [OF cr] b by (simp add: sz)
    have "?N < 2 ^ 32" using uint_bounded [of ?n] by simp
    then have ge3: "ge - ?f1 < 2 ^ 32" using ge2 fl f0 by linarith
    from process_group_fails [OF rf ge1 ge3, of ?ls] obtain d f' tg' vl' where
      pg: "process_group ?k ?m ?ls ?f1 ge tg vl = ([Crc_check ?f1 ge, LogE d], f', tg', vl')"
      and f': "?f1 \<le> f'" "f' \<le> ge" by blast
    let ?a = "memchr_examined ?m f LINE_FEED (unat (?n - 1))"
    let ?b = "memchr_examined ?m ?f1 CARRIAGE_RETURN (size_t_of (?N - ?f1))"
    let ?pass = "[Scan_read f ?a, Scan_read ?f1 ?b, Crc_check ?f1 ge, LogE d]"
    have st: "group_step ?k ?m ?n ?ls f tg vl = (?pass, Some f', tg', vl')"
      by (simp add: gsf cr pg)
    have gps: "group_passes (Suc i) ?k ?m ?n ?ls 0 (tag r) (val r) =
                 (before @ ?pass, Some f', tg', vl')"
      unfolding snoc by (simp add: st)
    have o: "out (loop r) = out r @ before @ ?pass @ fst (group_loop ?k ?m ?n ?ls f' tg' vl')"
      using lp gl group_loop_continue [OF st] by simp
    have skip: "effects (fst (group_loop ?k ?m ?n ?ls f' tg' vl')) =
                effects (fst (group_loop ?k ?m ?n ?ls (ge + 1) tg' vl'))
              \<and> snd (group_loop ?k ?m ?n ?ls f' tg' vl') =
                snd (group_loop ?k ?m ?n ?ls (ge + 1) tg' vl')"
      if nolf: "\<forall>x. ?f1 \<le> x \<and> x < ge \<longrightarrow> ?m x \<noteq> LINE_FEED"
    proof (rule group_loop_skip)
      show "1 \<le> f'" using f'(1) fl f0 by simp
      show "f' \<le> ge + 1" using f'(2) by simp
      show "1 \<le> ?N" using assms(4) fl f0 by simp
      have "?m ge = CARRIAGE_RETURN" using cr by (rule memchr_hit)
      then have "?m ge \<noteq> LINE_FEED" by (simp add: CARRIAGE_RETURN_def LINE_FEED_def)
      then show "\<forall>a. f' \<le> a \<and> a < ge + 1 \<longrightarrow> ?m a \<noteq> LINE_FEED"
        using nolf f'(1) by (metis add.commute less_le_not_le order_trans zless_add1_eq)
    qed
    from gps f' o skip
    show "\<exists>a c b c' d f' tg' vl'.
             group_passes (Suc i) ?k ?m ?n ?ls 0 (tag r) (val r)
               = (before @ [Scan_read a c, Scan_read b c', Crc_check ?f1 ge, LogE d],
                  Some f', tg', vl')
             \<and> lf < f' \<and> f' \<le> ge
             \<and> out (loop r) =
                 out r @ before @ [Scan_read a c, Scan_read b c', Crc_check ?f1 ge, LogE d] @
                 fst (group_loop ?k ?m ?n ?ls f' tg' vl')
             \<and> ((\<forall>x. ?f1 \<le> x \<and> x < ge \<longrightarrow> ?m x \<noteq> LINE_FEED) \<longrightarrow>
                  effects (fst (group_loop ?k ?m ?n ?ls f' tg' vl')) =
                  effects (fst (group_loop ?k ?m ?n ?ls (ge + 1) tg' vl'))
                  \<and> snd (group_loop ?k ?m ?n ?ls f' tg' vl') =
                    snd (group_loop ?k ?m ?n ?ls (ge + 1) tg' vl'))"
      by (intro exI [of _ f] exI [of _ ?a] exI [of _ ?f1] exI [of _ ?b] exI [of _ d]
            exI [of _ f'] exI [of _ tg'] exI [of _ vl']) simp
  }
  assume nocr: "\<forall>x. ?f1 \<le> x \<and> x < ?N \<longrightarrow> ?m x \<noteq> CARRIAGE_RETURN"
  have "?f1 + int (size_t_of (?N - ?f1)) = ?N" using b by (simp add: sz)
  then have cr: "memchr ?m ?f1 CARRIAGE_RETURN (size_t_of (?N - ?f1)) = None"
    using nocr by (simp add: memchr_None_iff)
  let ?a = "memchr_examined ?m f LINE_FEED (unat (?n - 1))"
  let ?b = "memchr_examined ?m ?f1 CARRIAGE_RETURN (size_t_of (?N - ?f1))"
  let ?last = "[Scan_read f ?a, Scan_read ?f1 ?b, LogE No_group_found]"
  have st: "group_step ?k ?m ?n ?ls f tg vl = (?last, None, tg, vl)"
    by (simp add: gsf cr)
  have gps: "group_passes (Suc i) ?k ?m ?n ?ls 0 (tag r) (val r) = (before @ ?last, None, tg, vl)"
    unfolding snoc by (simp add: st)
  have o: "out (loop r) = out r @ before @ ?last"
    using lp gl group_loop_stop [OF st] by simp
  from gps o
  show "\<exists>a c b c'.
             group_passes (Suc i) ?k ?m ?n ?ls 0 (tag r) (val r)
               = (before @ [Scan_read a c, Scan_read b c', LogE No_group_found], None, tg, vl)
             \<and> out (loop r) =
                 out r @ before @ [Scan_read a c, Scan_read b c', LogE No_group_found]"
    by blast
  have "snd (group_loop ?k ?m ?n ?ls 0 (tag r) (val r)) = (tg, vl)"
    using gl group_loop_stop_snd [OF st] by simp
  with la show "tag (loop r) = tg" and "val (loop r) = vl" by simp_all
qed

lemmas R_test_simps = R_local_def R_fatal_def R_parse_simps spec_simps eval_simps

theorem record_failures_are_local_witness:
  "state R_local = END_FRAME_RECEIVED
   \<and> memchr (buf R_local) 0 LINE_FEED (unat (buf_index R_local - 1)) = Some 0
   \<and> memchr (buf R_local) 1 CARRIAGE_RETURN (size_t_of (uint (buf_index R_local) - 1)) = Some 6
   \<and> record_fails (checksum_area_end R_local) (buf R_local) 1 6 (tag R_local) (val R_local)
   \<and> state (loop R_local) = OFF
   \<and> (\<exists>a c b c' d f' tg' vl'.
         out (loop R_local) =
           out R_local @ [Scan_read a c, Scan_read b c', Crc_check 1 6, LogE d] @
           fst (group_loop (checksum_area_end R_local) (buf R_local) (buf_index R_local)
                  (mk2pvrouter_listeners R_local) f' tg' vl')
         \<and> effects (fst (group_loop (checksum_area_end R_local) (buf R_local) (buf_index R_local)
                  (mk2pvrouter_listeners R_local) f' tg' vl')) =
           effects (fst (group_loop (checksum_area_end R_local) (buf R_local) (buf_index R_local)
                  (mk2pvrouter_listeners R_local) 7 tg' vl')))
   \<and> measurements (out (loop R_local)) = [([0x41], [0x42])]
   \<and> state R_fatal = END_FRAME_RECEIVED
   \<and> memchr (buf R_fatal) 7 LINE_FEED (unat (buf_index R_fatal - 1)) = Some 7
   \<and> state (loop R_fatal) = OFF
   \<and> (\<exists>before a c b c'.
         measurements before = [([0x41], [0x42])]
         \<and> out (loop R_fatal) =
             out R_fatal @ before @ [Scan_read a c, Scan_read b c', LogE No_group_found])"
proof -
  have l1: "state R_local = END_FRAME_RECEIVED" by (simp add: R_test_simps)
  have l2: "group_passes 0 (checksum_area_end R_local) (buf R_local) (buf_index R_local)
              (mk2pvrouter_listeners R_local) 0 (tag R_local) (val R_local)
            = ([], Some 0, tag R_local, val R_local)" by simp
  have l3: "memchr (buf R_local) 0 LINE_FEED (unat (buf_index R_local - 1)) = Some 0"
    by (simp add: R_test_simps)
  have l4: "0 < uint (buf_index R_local)" by (simp add: R_test_simps)
  have l5: "memchr (buf R_local) 1 CARRIAGE_RETURN (size_t_of (uint (buf_index R_local) - 1))
            = Some 6"
    by (simp add: R_test_simps size_t_of_def)
  have l6: "record_fails (checksum_area_end R_local) (buf R_local) 1 6 (tag R_local) (val R_local)"
    by (simp add: record_fails_def check_crc_def calculate_crc_def crc_raw_addr_def upt_rec
          R_test_simps)
  have "memchr (buf R_local) 1 LINE_FEED 5 = None" by (simp add: R_test_simps)
  then have l7: "\<forall>x. 0 + 1 \<le> x \<and> x < 6 \<longrightarrow> buf R_local x \<noteq> LINE_FEED"
    by (simp add: memchr_None_iff)
  note tl = record_failures_are_local [OF l1 l2 l3 l4]
  have l8: "memchr (buf R_local) (0 + 1) CARRIAGE_RETURN
               (size_t_of (uint (buf_index R_local) - (0 + 1))) = Some 6
            \<and> record_fails (checksum_area_end R_local) (buf R_local) (0 + 1) 6
                (tag R_local) (val R_local)"
    using l5 l6 by simp
  from tl have c1: "state (loop R_local) = OFF" by blast
  from tl [THEN conjunct2, THEN conjunct1, THEN spec, THEN mp, OF l8] l7
  have c2: "\<exists>a c b c' d f' tg' vl'.
         out (loop R_local) =
           out R_local @ [Scan_read a c, Scan_read b c', Crc_check 1 6, LogE d] @
           fst (group_loop (checksum_area_end R_local) (buf R_local) (buf_index R_local)
                  (mk2pvrouter_listeners R_local) f' tg' vl')
         \<and> effects (fst (group_loop (checksum_area_end R_local) (buf R_local) (buf_index R_local)
                  (mk2pvrouter_listeners R_local) f' tg' vl')) =
           effects (fst (group_loop (checksum_area_end R_local) (buf R_local) (buf_index R_local)
                  (mk2pvrouter_listeners R_local) 7 tg' vl'))"
    by (elim exE conjE) (simp, blast)
  have c3: "measurements (out (loop R_local)) = [([0x41], [0x42])]"
    by (simp add: R_test_simps run_simps upt_rec)
  have f1: "state R_fatal = END_FRAME_RECEIVED" by (simp add: R_test_simps)
  obtain before nx tg vl where f2': "group_passes 1 (checksum_area_end R_fatal) (buf R_fatal)
      (buf_index R_fatal) (mk2pvrouter_listeners R_fatal) 0 (tag R_fatal) (val R_fatal)
      = (before, nx, tg, vl)"
    using prod_cases4 by blast
  have ev: "fst (snd (group_passes 1 (checksum_area_end R_fatal) (buf R_fatal)
      (buf_index R_fatal) (mk2pvrouter_listeners R_fatal) 0 (tag R_fatal) (val R_fatal))) = Some 7"
    "measurements (fst (group_passes 1 (checksum_area_end R_fatal) (buf R_fatal)
      (buf_index R_fatal) (mk2pvrouter_listeners R_fatal) 0 (tag R_fatal) (val R_fatal)))
      = [([0x41], [0x42])]"
    by (simp_all add: R_test_simps run_simps upt_rec)
  have nx: "nx = Some 7" and mb: "measurements before = [([0x41], [0x42])]"
    using ev unfolding f2' by simp_all
  have f2: "group_passes 1 (checksum_area_end R_fatal) (buf R_fatal)
      (buf_index R_fatal) (mk2pvrouter_listeners R_fatal) 0 (tag R_fatal) (val R_fatal)
      = (before, Some 7, tg, vl)" using f2' nx by simp
  have f3: "memchr (buf R_fatal) 7 LINE_FEED (unat (buf_index R_fatal - 1)) = Some 7"
    by (simp add: R_test_simps)
  have f4: "7 < uint (buf_index R_fatal)" by (simp add: R_test_simps)
  have m8: "memchr (buf R_fatal) 8 CARRIAGE_RETURN 1 = None" by (simp add: R_test_simps)
  from m8 [unfolded memchr_None_iff]
  have "\<forall>x. 8 \<le> x \<and> x < 9 \<longrightarrow> buf R_fatal x \<noteq> CARRIAGE_RETURN" by simp
  moreover have "uint (buf_index R_fatal) = 9" by (simp add: R_test_simps)
  ultimately have f5: "\<forall>x. 7 + 1 \<le> x \<and> x < uint (buf_index R_fatal) \<longrightarrow>
      buf R_fatal x \<noteq> CARRIAGE_RETURN" by simp
  note tf = record_failures_are_local [OF f1 f2 f3 f4]
  from tf have c4: "state (loop R_fatal) = OFF" by blast
  from tf [THEN conjunct2, THEN conjunct2, THEN mp, OF f5] mb
  have c5: "\<exists>before a c b c'.
         measurements before = [([0x41], [0x42])]
         \<and> out (loop R_fatal) =
             out R_fatal @ before @ [Scan_read a c, Scan_read b c', LogE No_group_found]"
    by blast
  from l1 l3 l5 l6 c1 c2 c3 f1 f3 c4 c5 show ?thesis by blast
qed

subsection \<open>Empty fields\<close>

lemma get_field_empty_result:
  assumes "s < e" "e - s < 2 ^ 32" "m s = TAB"
  shows "get_field dest m s e mx = (0, if 0 < mx then dest(0 := 0) else dest)"
proof -
  have "0 < size_t_of (e - s)" using assms(1,2) by (simp add: size_t_of_def)
  then obtain c where "size_t_of (e - s) = Suc c" by (cases "size_t_of (e - s)") auto
  then have "memchr m s TAB (size_t_of (e - s)) = Some s" using assms(3) by simp
  then show ?thesis by (simp add: get_field_def Let_def)
qed

lemma process_group_empty_tag:
  assumes "f1 < ge" "ge - f1 < 2 ^ 32" "m f1 = TAB"
  shows "\<exists>d tg'. process_group k m ls f1 ge tg vl = ([Crc_check f1 ge, LogE d], f1, tg', vl)"
  using get_field_empty_result [where s = f1 and e = ge and m = m and dest = tg
          and mx = MAX_TAG_SIZE, OF assms]
  by (simp add: process_group_def)

lemma process_group_empty_val:
  assumes "f1 < p" "p + 1 < ge" "ge - f1 < 2 ^ 32"
    and "m p = TAB" "\<forall>a. f1 \<le> a \<and> a < p \<longrightarrow> m a \<noteq> TAB" "m (p + 1) = TAB"
  shows "\<exists>d f' tg' vl'. process_group k m ls f1 ge tg vl = ([Crc_check f1 ge, LogE d], f', tg', vl')"
proof -
  have g1: "get_field tg m f1 ge MAX_TAG_SIZE =
      (p - f1, if MAX_TAG_SIZE \<le> p - f1 then tg
               else (strncpy tg 0 m f1 (nat (p - f1)))(p - f1 := 0))"
    using assms by (intro get_field_tab) simp_all
  have g2: "get_field vl m (p + 1) ge MAX_VAL_SIZE =
      (0, if 0 < MAX_VAL_SIZE then vl(0 := 0) else vl)"
    using assms by (intro get_field_empty_result) simp_all
  show ?thesis by (simp add: process_group_def g1 g2 Let_def)
qed

text \<open>
  C10, as the code has it. When the tab is the first byte of the region the extractor
  returns 0, as it does when the region has no tab; the two cases differ in the destination,
  where the first stores the terminator at position 0 (for a positive maximum) and the second
  stores nothing. A pass of the loop body over a group whose tag is empty, or whose value
  is empty, adds the checksum check and one diagnostic to the trace and publishes nothing,
  for any contents of the buffer and any checksum offset.
\<close>

theorem empty_field_rejected:
  "(\<forall>dest m s e mx. s < e \<and> e - s < 2 ^ 32 \<and> m s = TAB \<longrightarrow>
       get_field dest m s e mx = (0, if 0 < mx then dest(0 := 0) else dest))
   \<and> (\<forall>dest m s e mx. s \<le> e \<and> e - s < 2 ^ 32 \<and> (\<forall>a. s \<le> a \<and> a < e \<longrightarrow> m a \<noteq> TAB) \<longrightarrow>
       get_field dest m s e mx = (0, dest))
   \<and> (\<forall>k m ls f1 ge tg vl. f1 < ge \<and> ge - f1 < 2 ^ 32 \<and> m f1 = TAB \<longrightarrow>
       (\<exists>d tg'. process_group k m ls f1 ge tg vl = ([Crc_check f1 ge, LogE d], f1, tg', vl)))
   \<and> (\<forall>k m ls f1 ge tg vl p.
         f1 < p \<and> p + 1 < ge \<and> ge - f1 < 2 ^ 32 \<and> m p = TAB \<and>
         (\<forall>a. f1 \<le> a \<and> a < p \<longrightarrow> m a \<noteq> TAB) \<and> m (p + 1) = TAB \<longrightarrow>
       (\<exists>d f' tg' vl'.
          process_group k m ls f1 ge tg vl = ([Crc_check f1 ge, LogE d], f', tg', vl')))"
proof (intro conjI allI impI)
  fix dest m :: mem and s e mx :: int
  assume "s < e \<and> e - s < 2 ^ 32 \<and> m s = TAB"
  then show "get_field dest m s e mx = (0, if 0 < mx then dest(0 := 0) else dest)"
    by (intro get_field_empty_result) simp_all
next
  fix dest m :: mem and s e mx :: int
  assume "s \<le> e \<and> e - s < 2 ^ 32 \<and> (\<forall>a. s \<le> a \<and> a < e \<longrightarrow> m a \<noteq> TAB)"
  then show "get_field dest m s e mx = (0, dest)"
    by (intro get_field_no_tab) simp_all
next
  fix k :: int and m tg vl :: mem and ls :: "u8 list list" and f1 ge :: int
  assume "f1 < ge \<and> ge - f1 < 2 ^ 32 \<and> m f1 = TAB"
  then show "\<exists>d tg'. process_group k m ls f1 ge tg vl = ([Crc_check f1 ge, LogE d], f1, tg', vl)"
    by (intro process_group_empty_tag) simp_all
next
  fix k :: int and m tg vl :: mem and ls :: "u8 list list" and f1 ge p :: int
  assume "f1 < p \<and> p + 1 < ge \<and> ge - f1 < 2 ^ 32 \<and> m p = TAB \<and>
         (\<forall>a. f1 \<le> a \<and> a < p \<longrightarrow> m a \<noteq> TAB) \<and> m (p + 1) = TAB"
  then show "\<exists>d f' tg' vl'.
          process_group k m ls f1 ge tg vl = ([Crc_check f1 ge, LogE d], f', tg', vl')"
    by (intro process_group_empty_val [of f1 p ge m]) simp_all
qed

text \<open>A record body whose value is empty, with its checksum.\<close>

definition body_empty_val :: "u8 list" where "body_empty_val = [0x41, 0x09, 0x09, 0x33]"

theorem empty_field_rejected_witness:
  "mem_of body_empty_tag 0 = TAB
   \<and> get_field (mem_of [0x55]) (mem_of body_empty_tag) 0 4 16 = (0, (mem_of [0x55])(0 := 0))
   \<and> TAB \<notin> set [0x41, 0x42, 0x43, 0x44]
   \<and> get_field (mem_of [0x55]) (mem_of [0x41, 0x42, 0x43, 0x44]) 0 4 16 = (0, mem_of [0x55])
   \<and> crc_ok 1 body_empty_tag
   \<and> (\<exists>d tg'. process_group 1 (mem_of body_empty_tag) [[0x41]] 0 4 (mem_of [0x55]) (mem_of [0x55])
                 = ([Crc_check 0 4, LogE d], 0, tg', mem_of [0x55]))
   \<and> crc_ok 1 body_empty_val
   \<and> tag_of body_empty_val = [0x41] \<and> val_of body_empty_val = []
   \<and> (\<exists>d f' tg' vl'. process_group 1 (mem_of body_empty_val) [[0x41]] 0 4 (mem_of [0x55]) (mem_of [0x55])
                 = ([Crc_check 0 4, LogE d], f', tg', vl'))"
proof -
  note th = empty_field_rejected
  have t0: "mem_of body_empty_tag 0 = TAB" by (simp add: spec_simps eval_simps)
  then have h1: "(0::int) < 4 \<and> (4::int) - 0 < 2 ^ 32 \<and> mem_of body_empty_tag 0 = TAB" by simp
  from th [THEN conjunct1, THEN spec [of _ "mem_of [0x55]"], THEN spec [of _ "mem_of body_empty_tag"],
           THEN spec [of _ "0::int"], THEN spec [of _ "4::int"], THEN spec [of _ "16::int"],
           THEN mp, OF h1]
  have c1: "get_field (mem_of [0x55]) (mem_of body_empty_tag) 0 4 16 = (0, (mem_of [0x55])(0 := 0))"
    by simp
  have nt: "TAB \<notin> set [0x41, 0x42, 0x43, 0x44]" by (simp add: eval_simps)
  have m0: "memchr (mem_of [0x41, 0x42, 0x43, 0x44]) 0 TAB 4 = None" by (simp add: eval_simps)
  from m0 [unfolded memchr_None_iff]
  have "(0::int) \<le> 4 \<and> (4::int) - 0 < 2 ^ 32 \<and>
      (\<forall>a. 0 \<le> a \<and> a < 4 \<longrightarrow> mem_of [0x41, 0x42, 0x43, 0x44] a \<noteq> TAB)" by simp
  from th [THEN conjunct2, THEN conjunct1, THEN spec [of _ "mem_of [0x55]"],
           THEN spec [of _ "mem_of [0x41, 0x42, 0x43, 0x44]"],
           THEN spec [of _ "0::int"], THEN spec [of _ "4::int"], THEN spec [of _ "16::int"],
           THEN mp, OF this]
  have c2: "get_field (mem_of [0x55]) (mem_of [0x41, 0x42, 0x43, 0x44]) 0 4 16 = (0, mem_of [0x55])" .
  have k1: "crc_ok 1 body_empty_tag" by (simp add: spec_simps eval_simps)
  from th [THEN conjunct2, THEN conjunct2, THEN conjunct1, THEN spec [of _ "1::int"],
           THEN spec [of _ "mem_of body_empty_tag"], THEN spec [of _ "[[0x41]]"],
           THEN spec [of _ "0::int"], THEN spec [of _ "4::int"], THEN spec [of _ "mem_of [0x55]"],
           THEN spec [of _ "mem_of [0x55]"], THEN mp, OF h1]
  have c3: "\<exists>d tg'. process_group 1 (mem_of body_empty_tag) [[0x41]] 0 4 (mem_of [0x55]) (mem_of [0x55])
                 = ([Crc_check 0 4, LogE d], 0, tg', mem_of [0x55])" .
  have k2: "crc_ok 1 body_empty_val" "tag_of body_empty_val = [0x41]" "val_of body_empty_val = []"
    by (simp_all add: spec_simps eval_simps body_empty_val_def)
  have m1: "memchr (mem_of body_empty_val) 0 TAB 1 = None"
    by (simp add: eval_simps body_empty_val_def)
  from m1 [unfolded memchr_None_iff]
  have h4: "(0::int) < 1 \<and> (1::int) + 1 < 4 \<and> (4::int) - 0 < 2 ^ 32 \<and> mem_of body_empty_val 1 = TAB \<and>
         (\<forall>a. 0 \<le> a \<and> a < 1 \<longrightarrow> mem_of body_empty_val a \<noteq> TAB) \<and> mem_of body_empty_val (1 + 1) = TAB"
    by (simp add: eval_simps body_empty_val_def)
  from th [THEN conjunct2, THEN conjunct2, THEN conjunct2, THEN spec [of _ "1::int"],
           THEN spec [of _ "mem_of body_empty_val"], THEN spec [of _ "[[0x41]]"],
           THEN spec [of _ "0::int"], THEN spec [of _ "4::int"], THEN spec [of _ "mem_of [0x55]"],
           THEN spec [of _ "mem_of [0x55]"], THEN spec [of _ "1::int"], THEN mp, OF h4]
  have c4: "\<exists>d f' tg' vl'. process_group 1 (mem_of body_empty_val) [[0x41]] 0 4 (mem_of [0x55]) (mem_of [0x55])
                 = ([Crc_check 0 4, LogE d], f', tg', vl')" .
  from t0 c1 nt c2 k1 c3 k2 c4 show ?thesis by blast
qed

text \<open>
  C10 as stated fails at the destination: for the region \<open>TAB B TAB 4\<close> (empty field)
  and the region \<open>A B C D\<close> (no tab) the extractor returns 0 both times, but a
  destination that starts with \<open>0x55\<close> starts with NUL after the first call and is
  unchanged after the second.
\<close>

theorem empty_field_dest_counterexample:
  "mem_of [0x09, 0x42, 0x09, 0x34] 0 = TAB
   \<and> TAB \<notin> set [0x41, 0x42, 0x43, 0x44]
   \<and> fst (get_field (mem_of [0x55]) (mem_of [0x09, 0x42, 0x09, 0x34]) 0 4 16) = 0
   \<and> fst (get_field (mem_of [0x55]) (mem_of [0x41, 0x42, 0x43, 0x44]) 0 4 16) = 0
   \<and> snd (get_field (mem_of [0x55]) (mem_of [0x09, 0x42, 0x09, 0x34]) 0 4 16) 0 = 0x00
   \<and> snd (get_field (mem_of [0x55]) (mem_of [0x41, 0x42, 0x43, 0x44]) 0 4 16) 0 = 0x55"
  by (simp add: get_field_def eval_simps)

end
